theory Spec2Isabelle
  imports Main "HOL-Library.Sublist"
begin

section \<open>JavaScript strings\<close>

text \<open>
  A JavaScript string is a sequence of UTF-16 code units. The patterns of
  \<^verbatim>\<open>taskpane.ts\<close> mention the curly quotes U+201C, U+201D and U+2019, which do not fit
  a byte, so a code unit is a natural number here and \<open>length\<close> is the \<^verbatim>\<open>.length\<close> of the
  source. \<open>js\<close> turns an ASCII literal into such a string.
\<close>

type_synonym jsstring = "nat list"

definition js :: "string \<Rightarrow> jsstring" where
  "js s = map of_char s"

abbreviation APOS :: nat where "APOS \<equiv> 39"      \<comment> \<open>the apostrophe U+0027\<close>
abbreviation DQUOTE :: nat where "DQUOTE \<equiv> 34"  \<comment> \<open>the double quote U+0022\<close>
abbreviation LDQUO :: nat where "LDQUO \<equiv> 8220"  \<comment> \<open>U+201C\<close>
abbreviation RDQUO :: nat where "RDQUO \<equiv> 8221"  \<comment> \<open>U+201D\<close>
abbreviation RSQUO :: nat where "RSQUO \<equiv> 8217"  \<comment> \<open>U+2019\<close>
abbreviation NL :: nat where "NL \<equiv> 10"
abbreviation CR :: nat where "CR \<equiv> 13"
abbreviation TAB :: nat where "TAB \<equiv> 9"
abbreviation SPC :: nat where "SPC \<equiv> 32"

text \<open>The character classes of ECMAScript regular expressions without the \<^verbatim>\<open>u\<close> flag.\<close>

definition is_ws :: "nat \<Rightarrow> bool" where  \<comment> \<open>\<^verbatim>\<open>\s\<close>, also what \<^verbatim>\<open>trim()\<close> removes\<close>
  "is_ws c \<longleftrightarrow> (9 \<le> c \<and> c \<le> 13) \<or> c = 32 \<or> c = 160 \<or> c = 5760 \<or> (8192 \<le> c \<and> c \<le> 8202)
     \<or> c = 8232 \<or> c = 8233 \<or> c = 8239 \<or> c = 8287 \<or> c = 12288 \<or> c = 65279"

definition is_word :: "nat \<Rightarrow> bool" where  \<comment> \<open>\<^verbatim>\<open>\w\<close>\<close>
  "is_word c \<longleftrightarrow> (48 \<le> c \<and> c \<le> 57) \<or> (65 \<le> c \<and> c \<le> 90) \<or> c = 95 \<or> (97 \<le> c \<and> c \<le> 122)"

definition is_dot :: "nat \<Rightarrow> bool" where  \<comment> \<open>\<^verbatim>\<open>.\<close>: anything but a line terminator\<close>
  "is_dot c \<longleftrightarrow> \<not> (c = 10 \<or> c = 13 \<or> c = 8232 \<or> c = 8233)"

definition one_of :: "jsstring \<Rightarrow> nat \<Rightarrow> bool" where  \<comment> \<open>\<^verbatim>\<open>[...]\<close> listing its members\<close>
  "one_of cs c \<longleftrightarrow> c \<in> set cs"

definition in_range :: "string \<Rightarrow> string \<Rightarrow> nat \<Rightarrow> bool" where  \<comment> \<open>\<^verbatim>\<open>[a-b]\<close>\<close>
  "in_range a b c \<longleftrightarrow> (case (js a, js b) of ([lo], [hi]) \<Rightarrow> lo \<le> c \<and> c \<le> hi | _ \<Rightarrow> False)"

text \<open>
  Case mapping. \<^verbatim>\<open>String.prototype.toLowerCase\<close> and \<^verbatim>\<open>toUpperCase\<close> apply the Unicode
  case tables of the JavaScript engine, which are not part of the repository (and may
  change the length of a string). They are a parameter \<open>ct\<close> of every function of the
  program that calls them.
\<close>

record case_tables =
  toLowerCase :: "jsstring \<Rightarrow> jsstring"
  toUpperCase :: "jsstring \<Rightarrow> jsstring"

text \<open>
  What is known of them: on a string of ASCII characters they fold the letters
  \<^verbatim>\<open>A-Z\<close> and \<^verbatim>\<open>a-z\<close> and leave every other character as it is. \<open>ascii_tables\<close> are the
  tables that do this on every code unit; they serve where a concrete instance is needed.
\<close>

definition upper_cu :: "nat \<Rightarrow> nat" where
  "upper_cu c = (if 97 \<le> c \<and> c \<le> 122 then c - 32 else c)"

definition lower_cu :: "nat \<Rightarrow> nat" where
  "lower_cu c = (if 65 \<le> c \<and> c \<le> 90 then c + 32 else c)"

definition ascii_lower :: "jsstring \<Rightarrow> jsstring" where
  "ascii_lower s = map lower_cu s"

definition ascii_upper :: "jsstring \<Rightarrow> jsstring" where
  "ascii_upper s = map upper_cu s"

definition is_ascii :: "jsstring \<Rightarrow> bool" where
  "is_ascii s \<longleftrightarrow> (\<forall>c \<in> set s. c < 128)"

definition ascii_faithful :: "case_tables \<Rightarrow> bool" where
  "ascii_faithful ct \<longleftrightarrow>
     (\<forall>s. is_ascii s \<longrightarrow> toLowerCase ct s = ascii_lower s \<and> toUpperCase ct s = ascii_upper s)"

definition ascii_tables :: case_tables where
  "ascii_tables = \<lparr>toLowerCase = ascii_lower, toUpperCase = ascii_upper\<rparr>"

definition trim :: "jsstring \<Rightarrow> jsstring" where
  "trim s = rev (dropWhile is_ws (rev (dropWhile is_ws s)))"

definition endsWith :: "jsstring \<Rightarrow> jsstring \<Rightarrow> bool" where
  "endsWith s w \<longleftrightarrow> length w \<le> length s \<and> drop (length s - length w) s = w"

section \<open>Regular expressions\<close>

text \<open>
  The patterns of the source are written in this syntax and run by a backtracking matcher
  that lists the ways a pattern can match at a position in the order in which the
  ECMAScript matcher tries them: the left alternative first, a greedy quantifier from the
  longest repetition down, a lazy one from the shortest up. The first entry is the match
  the engine reports. Quantifiers other than \<^verbatim>\<open>?\<close> only occur on single-character classes
  in the source, which is what \<open>Rep\<close> covers.
\<close>

datatype rx =
    Lit jsstring                              \<comment> \<open>literal characters\<close>
  | Cls "nat \<Rightarrow> bool"                         \<comment> \<open>one character of a class\<close>
  | Seq rx rx
  | Alt rx rx                                 \<comment> \<open>\<^verbatim>\<open>a|b\<close>\<close>
  | Opt rx                                    \<comment> \<open>\<^verbatim>\<open>a?\<close>\<close>
  | Rep "nat \<Rightarrow> bool" nat "nat option" bool   \<comment> \<open>class, min, max, greedy: \<^verbatim>\<open>c{min,max}\<close>\<close>
  | Grp nat rx                                \<comment> \<open>capture group number n\<close>
  | Bol                                       \<comment> \<open>\<^verbatim>\<open>^\<close>\<close>
  | Eol                                       \<comment> \<open>\<^verbatim>\<open>$\<close>\<close>
  | WordB                                     \<comment> \<open>\<^verbatim>\<open>\b\<close>\<close>

fun seqs :: "rx list \<Rightarrow> rx" where
  "seqs [] = Lit []"
| "seqs [r] = r"
| "seqs (r # rs) = Seq r (seqs rs)"

fun alts :: "rx list \<Rightarrow> rx" where
  "alts [] = Cls (\<lambda>_. False)"
| "alts [r] = r"
| "alts (r # rs) = Alt r (alts rs)"

abbreviation star :: "(nat \<Rightarrow> bool) \<Rightarrow> rx" where "star P \<equiv> Rep P 0 None True"
abbreviation plus :: "(nat \<Rightarrow> bool) \<Rightarrow> rx" where "plus P \<equiv> Rep P 1 None True"

text \<open>
  A matcher state: the text before the position (reversed, nearest character first), the
  text from the position on, and the captures made so far (latest first).
\<close>

type_synonym mstate = "jsstring \<times> jsstring \<times> (nat \<times> jsstring) list"

text \<open>
  Under the \<^verbatim>\<open>i\<close> flag characters are compared after canonicalisation. Every literal of
  the source's patterns is ASCII, and the ECMAScript rule never maps a non-ASCII code
  unit to an ASCII one, so folding the ASCII letters is exact for them. No class of an
  \<^verbatim>\<open>i\<close> pattern of the source contains a letter, so classes test the code unit itself.
\<close>

definition canon :: "bool \<Rightarrow> nat \<Rightarrow> nat" where
  "canon ci c = (if ci then upper_cu c else c)"

definition at_word_boundary :: "jsstring \<Rightarrow> jsstring \<Rightarrow> bool" where
  "at_word_boundary pre post \<longleftrightarrow>
     (case pre of [] \<Rightarrow> False | a # _ \<Rightarrow> is_word a) \<noteq> (case post of [] \<Rightarrow> False | b # _ \<Rightarrow> is_word b)"

fun rx_ends :: "bool \<Rightarrow> rx \<Rightarrow> mstate \<Rightarrow> mstate list" where
  "rx_ends ci (Lit w) (pre, post, caps) =
     (if length w \<le> length post \<and> map (canon ci) (take (length w) post) = map (canon ci) w
      then [(rev (take (length w) post) @ pre, drop (length w) post, caps)] else [])"
| "rx_ends ci (Cls P) (pre, post, caps) =
     (case post of [] \<Rightarrow> [] | c # cs \<Rightarrow> if P c then [(c # pre, cs, caps)] else [])"
| "rx_ends ci (Seq a b) s = concat (map (rx_ends ci b) (rx_ends ci a s))"
| "rx_ends ci (Alt a b) s = rx_ends ci a s @ rx_ends ci b s"
| "rx_ends ci (Opt a) s = rx_ends ci a s @ [s]"
| "rx_ends ci (Rep P lo hi greedy) (pre, post, caps) =
     (let run = length (takeWhile P post);
          top = (case hi of None \<Rightarrow> run | Some h \<Rightarrow> min h run);
          ks = [lo ..< Suc top]
      in map (\<lambda>k. (rev (take k post) @ pre, drop k post, caps)) (if greedy then rev ks else ks))"
| "rx_ends ci (Grp n a) (pre, post, caps) =
     map (\<lambda>(pre', post', caps'). (pre', post', (n, take (length post - length post') post) # caps'))
       (rx_ends ci a (pre, post, caps))"
| "rx_ends ci Bol (pre, post, caps) = (if pre = [] then [(pre, post, caps)] else [])"
| "rx_ends ci Eol (pre, post, caps) = (if post = [] then [(pre, post, caps)] else [])"
| "rx_ends ci WordB (pre, post, caps) = (if at_word_boundary pre post then [(pre, post, caps)] else [])"

text \<open>
  A match found by \<^verbatim>\<open>exec\<close>: the text skipped before it, the matched text, the text after
  it and the captures.
\<close>

record rmatch =
  m_before :: jsstring
  m_text :: jsstring
  m_after :: jsstring
  m_caps :: "(nat \<times> jsstring) list"

definition match_at :: "bool \<Rightarrow> rx \<Rightarrow> jsstring \<Rightarrow> jsstring \<Rightarrow> rmatch option" where
  "match_at ci r pre post =
     (case rx_ends ci r (pre, post, []) of
        [] \<Rightarrow> None
      | (_, post', caps) # _ \<Rightarrow>
          Some \<lparr>m_before = rev pre, m_text = take (length post - length post') post,
                m_after = post', m_caps = caps\<rparr>)"

text \<open>\<^verbatim>\<open>exec\<close> tries every start position from the left, the end of the text included.\<close>

fun rx_search :: "bool \<Rightarrow> rx \<Rightarrow> jsstring \<Rightarrow> jsstring \<Rightarrow> rmatch option" where
  "rx_search ci r pre [] = match_at ci r pre []"
| "rx_search ci r pre (c # cs) =
     (case match_at ci r pre (c # cs) of
        Some m \<Rightarrow> Some m
      | None \<Rightarrow> rx_search ci r (c # pre) cs)"

definition rx_exec :: "bool \<Rightarrow> rx \<Rightarrow> jsstring \<Rightarrow> rmatch option" where  \<comment> \<open>\<^verbatim>\<open>s.match(r)\<close>, no \<^verbatim>\<open>g\<close>\<close>
  "rx_exec ci r s = rx_search ci r [] s"

definition rx_test :: "bool \<Rightarrow> rx \<Rightarrow> jsstring \<Rightarrow> bool" where  \<comment> \<open>\<^verbatim>\<open>r.test(s)\<close>\<close>
  "rx_test ci r s \<longleftrightarrow> rx_exec ci r s \<noteq> None"

definition group :: "rmatch \<Rightarrow> nat \<Rightarrow> jsstring option" where  \<comment> \<open>\<^verbatim>\<open>m[n]\<close>\<close>
  "group m n = map_of (m_caps m) n"

definition replace_first :: "bool \<Rightarrow> rx \<Rightarrow> jsstring \<Rightarrow> jsstring \<Rightarrow> jsstring" where
  \<comment> \<open>\<^verbatim>\<open>s.replace(r, by)\<close>, no \<^verbatim>\<open>g\<close>\<close>
  "replace_first ci r by s =
     (case rx_exec ci r s of None \<Rightarrow> s | Some m \<Rightarrow> m_before m @ by @ m_after m)"

text \<open>
  \<^verbatim>\<open>s.replace(r, f)\<close> with the \<^verbatim>\<open>g\<close> flag: the matches are found from left to right, each
  search starting where the last match ended; after an empty match the search moves one
  character on. \<open>f\<close> maps the matched text to its replacement.
\<close>

function replace_from :: "bool \<Rightarrow> rx \<Rightarrow> (jsstring \<Rightarrow> jsstring) \<Rightarrow> jsstring \<Rightarrow> jsstring \<Rightarrow> jsstring" where
  "replace_from ci r f pre post =
     (case match_at ci r pre post of
        None \<Rightarrow> (case post of [] \<Rightarrow> [] | c # cs \<Rightarrow> c # replace_from ci r f (c # pre) cs)
      | Some m \<Rightarrow>
          (if m_text m = []
           then f [] @ (case post of [] \<Rightarrow> [] | c # cs \<Rightarrow> c # replace_from ci r f (c # pre) cs)
           else f (m_text m)
                @ replace_from ci r f (rev (m_text m) @ pre) (drop (length (m_text m)) post)))"
  by pat_completeness auto
termination
proof (relation "measure (\<lambda>(ci, r, f, pre, post). length post)", goal_cases)
  case 1
  show ?case by simp
next
  case (2 ci r f pre post c cs)
  then show ?case by simp
next
  case (3 ci r f pre post m c cs)
  then show ?case by simp
next
  case (4 ci r f pre post m)
  from 4(1) have "m_text m = take (length post - length (m_after m)) post"
    by (auto simp: match_at_def split: list.splits)
  with 4(2) have "post \<noteq> []" by auto
  with 4(2) show ?case by simp
qed

definition replace_all :: "bool \<Rightarrow> rx \<Rightarrow> (jsstring \<Rightarrow> jsstring) \<Rightarrow> jsstring \<Rightarrow> jsstring" where
  "replace_all ci r f s = replace_from ci r f [] s"

text \<open>
  \<^verbatim>\<open>s.split(r)\<close> for a pattern without capture groups: the pattern is tried at each
  position \<open>q\<close> after the end \<open>p\<close> of the last separator; a match that ends at \<open>p\<close> (an empty
  match with nothing collected yet) is passed over. \<open>piece\<close> is the text between \<open>p\<close> and \<open>q\<close>.
\<close>

function split_from :: "bool \<Rightarrow> rx \<Rightarrow> jsstring \<Rightarrow> jsstring \<Rightarrow> jsstring \<Rightarrow> jsstring list" where
  "split_from ci r pre piece post =
     (case post of
        [] \<Rightarrow> [piece]
      | c # cs \<Rightarrow>
          (case match_at ci r pre post of
             None \<Rightarrow> split_from ci r (c # pre) (piece @ [c]) cs
           | Some m \<Rightarrow>
               if m_text m = [] \<and> piece = [] then split_from ci r (c # pre) (piece @ [c]) cs
               else piece # split_from ci r (rev (m_text m) @ pre) [] (drop (length (m_text m)) post)))"
  by pat_completeness auto
termination
proof (relation "measure (\<lambda>(ci, r, pre, piece, post). 2 * length post + (if piece = [] then 0 else 1))",
    goal_cases)
  case 1
  show ?case by simp
next
  case (2 ci r pre piece post c cs)
  then show ?case by simp
next
  case (3 ci r pre piece post c cs m)
  then show ?case by simp
next
  case (4 ci r pre piece post c cs m)
  then show ?case by (cases "m_text m") auto
qed

definition split :: "bool \<Rightarrow> rx \<Rightarrow> jsstring \<Rightarrow> jsstring list" where
  "split ci r s =
     (if s = [] then (if match_at ci r [] [] = None then [[]] else [])
      else split_from ci r [] [] s)"

section \<open>The program\<close>

subsection \<open>Parties\<close>

text \<open>\<^verbatim>\<open>type Party = { name: string; role?: string }\<close>\<close>

record Party =
  name :: jsstring
  role :: "jsstring option"

definition equalName :: "case_tables \<Rightarrow> jsstring \<Rightarrow> jsstring \<Rightarrow> bool" where
  "equalName ct a b \<longleftrightarrow> toLowerCase ct (trim a) = toLowerCase ct (trim b)"

text \<open>
  A JavaScript \<^verbatim>\<open>Set\<close> keeps its members in insertion order and \<^verbatim>\<open>Array.from\<close> reads them
  in that order, so a set is the list of its members, first insertion first.
\<close>

definition set_add :: "'a list \<Rightarrow> 'a \<Rightarrow> 'a list" where
  "set_add seen x = (if x \<in> set seen then seen else seen @ [x])"

text \<open>
  The loop of \<^verbatim>\<open>dedupeParties\<close>, with the set \<open>seen\<close> of keys and the output \<open>out\<close> built
  so far.
\<close>

fun dedupe_loop :: "case_tables \<Rightarrow> jsstring list \<Rightarrow> Party list \<Rightarrow> Party list \<Rightarrow> Party list" where
  "dedupe_loop ct seen out [] = out"
| "dedupe_loop ct seen out (p # arr) =
     (let key = toLowerCase ct (trim (name p))
      in if key \<notin> set seen then dedupe_loop ct (set_add seen key) (out @ [p]) arr
         else dedupe_loop ct seen out arr)"

definition dedupeParties :: "case_tables \<Rightarrow> Party list \<Rightarrow> Party list" where
  "dedupeParties ct arr = dedupe_loop ct [] [] arr"

abbreviation party_key :: "case_tables \<Rightarrow> Party \<Rightarrow> jsstring" where  \<comment> \<open>the key of the loop above\<close>
  "party_key ct p \<equiv> toLowerCase ct (trim (name p))"

subsection \<open>Term building\<close>

definition add :: "jsstring list \<Rightarrow> jsstring \<Rightarrow> jsstring list" where
  \<comment> \<open>\<^verbatim>\<open>if (s && s.trim()) set.add(s.trim())\<close>\<close>
  "add unique s = (if s \<noteq> [] \<and> trim s \<noteq> [] then set_add unique (trim s) else unique)"

definition makePossessive :: "jsstring \<Rightarrow> jsstring" where
  "makePossessive s =
     (if s = [] then s
      else if endsWith s (js ''s'') \<or> endsWith s (js ''S'') then s @ [APOS]
      else s @ [APOS] @ js ''s'')"

definition dedupe :: "'a list \<Rightarrow> 'a list" where  \<comment> \<open>\<^verbatim>\<open>Array.from(new Set(arr))\<close>\<close>
  "dedupe arr = foldl set_add [] arr"

definition base_roles :: "jsstring list" where
  "base_roles = map js [''Company'', ''Contractor'', ''Client'', ''Customer'', ''Licensor'',
     ''Licensee'', ''Provider'', ''Vendor'', ''Reseller'', ''Partner'']"

definition addForms :: "case_tables \<Rightarrow> jsstring list \<Rightarrow> jsstring \<Rightarrow> jsstring list" where
  "addForms ct out r = out @ [r, js ''the '' @ r, toUpperCase ct r, js ''the '' @ toUpperCase ct r]"

definition buildAliases :: "case_tables \<Rightarrow> Party \<Rightarrow> jsstring list" where
  "buildAliases ct p =
     dedupe (case role p of
               Some r \<Rightarrow> if r \<noteq> [] then addForms ct [] r else foldl (addForms ct) [] base_roles
             | None \<Rightarrow> foldl (addForms ct) [] base_roles)"

definition rx_plural_words :: rx where  \<comment> \<open>\<^verbatim>\<open>/(holdings|group|partners)\b/i\<close>\<close>
  "rx_plural_words =
     Seq (Grp 1 (alts [Lit (js ''holdings''), Lit (js ''group''), Lit (js ''partners'')])) WordB"

definition rx_final_s :: rx where  \<comment> \<open>\<^verbatim>\<open>/[^']s\b/i\<close>\<close>
  "rx_final_s = seqs [Cls (\<lambda>c. \<not> one_of [APOS] c), Lit (js ''s''), WordB]"

definition pronounsFor :: "jsstring \<Rightarrow> jsstring list" where
  "pronounsFor nm =
     (let pluralHint = rx_test True rx_plural_words nm \<or> rx_test True rx_final_s nm
      in if pluralHint then map js [''they'', ''their'', ''themselves'']
         else map js [''it'', ''its'', ''itself''])"

definition rx_possessive :: rx where  \<comment> \<open>\<^verbatim>\<open>/'\s*s?$/\<close>\<close>
  "rx_possessive = seqs [Lit [APOS], star is_ws, Opt (Lit (js ''s'')), Eol]"

definition isPossessive :: "jsstring \<Rightarrow> bool" where
  "isPossessive term \<longleftrightarrow> rx_test False rx_possessive term"

text \<open>
  \<^verbatim>\<open>buildTerms\<close>: the name and its possessive, then each alias followed by its possessive,
  then the pronouns as they are.
\<close>

definition add_alias :: "jsstring list \<Rightarrow> jsstring \<Rightarrow> jsstring list" where
  "add_alias unique a = add (add unique a) (makePossessive a)"

definition buildTerms :: "jsstring \<Rightarrow> jsstring list \<Rightarrow> jsstring list \<Rightarrow> jsstring list" where
  "buildTerms nm aliases pronouns =
     (let unique = add [] nm;
          unique = add unique (makePossessive nm);
          unique = foldl add_alias unique aliases;
          unique = foldl add unique pronouns
      in unique)"

subsection \<open>Party detection\<close>

definition normalizeSpaces :: "jsstring \<Rightarrow> jsstring" where
  \<comment> \<open>\<^verbatim>\<open>s.replace(/\r\n?/g, "\n").replace(/[ \t]+/g, " ").trim()\<close>\<close>
  "normalizeSpaces s =
     trim (replace_all False (plus (one_of [SPC, TAB])) (\<lambda>_. js '' '')
       (replace_all False (Seq (Lit [CR]) (Opt (Lit [NL]))) (\<lambda>_. [NL]) s))"

definition stripQuotes :: "jsstring \<Rightarrow> jsstring" where
  \<comment> \<open>\<^verbatim>\<open>s.replace(/^[LDQUO"']|[RDQUO"']$/g, "").trim()\<close>\<close>
  "stripQuotes s =
     trim (replace_all False
       (Alt (Seq Bol (Cls (one_of [LDQUO, DQUOTE, APOS]))) (Seq (Cls (one_of [RDQUO, DQUOTE, APOS])) Eol))
       (\<lambda>_. []) s)"

definition titleCase :: "case_tables \<Rightarrow> jsstring \<Rightarrow> jsstring" where
  \<comment> \<open>\<^verbatim>\<open>s.replace(/\w\S*/g, (w) => w[0].toUpperCase() + w.slice(1).toLowerCase())\<close>\<close>
  "titleCase ct s =
     replace_all False (Seq (Cls is_word) (star (\<lambda>c. \<not> is_ws c)))
       (\<lambda>w. toUpperCase ct (take 1 w) @ toLowerCase ct (drop 1 w)) s"

definition punct_or_ws :: "nat \<Rightarrow> bool" where  \<comment> \<open>\<^verbatim>\<open>[,;:\-\s]\<close>\<close>
  "punct_or_ws c \<longleftrightarrow> one_of (js '',;:-'') c \<or> is_ws c"

definition scrubName :: "jsstring \<Rightarrow> jsstring" where
  "scrubName s =
     (let x = replace_first True
                (seqs [WordB, Opt (Lit (js ''by and '')), Lit (js ''between''), WordB]) [] s;
          x = replace_all False (Alt (Seq Bol (plus punct_or_ws)) (Seq (plus punct_or_ws) Eol))
                (\<lambda>_. []) x;
          x = replace_all False (Rep is_ws 2 None True) (\<lambda>_. js '' '') x
      in stripQuotes x)"

definition role_words :: rx where
  \<comment> \<open>\<^verbatim>\<open>Company|Contractor|Client|Customer|Licensor|Licensee|Provider|Vendor|Reseller|Partner\<close>\<close>
  "role_words = alts (map (\<lambda>w. Lit (js w)) [''Company'', ''Contractor'', ''Client'', ''Customer'',
     ''Licensor'', ''Licensee'', ''Provider'', ''Vendor'', ''Reseller'', ''Partner''])"

definition rx_role :: "rx \<Rightarrow> rx" where
  \<comment> \<open>\<^verbatim>\<open>/\(\s*(?:the\s+)?["LDQUO] words ["RDQUO]\s*\)/i\<close>, \<open>words\<close> a capturing or a plain group\<close>
  "rx_role words =
     seqs [Lit (js ''(''), star is_ws, Opt (Seq (Lit (js ''the'')) (plus is_ws)),
           Cls (one_of [DQUOTE, LDQUO]), words, Cls (one_of [DQUOTE, RDQUO]), star is_ws,
           Lit (js '')'')]"

text \<open>
  \<^verbatim>\<open>m[n]\<close> for a group that took part in the match. Every group of the source's patterns
  takes part in each match of its pattern, so \<^verbatim>\<open>undefined\<close> does not arise where this is
  used.
\<close>

definition grp :: "rmatch \<Rightarrow> nat \<Rightarrow> jsstring" where
  "grp m n = (case group m n of Some s \<Rightarrow> s | None \<Rightarrow> [])"

definition extractRole :: "case_tables \<Rightarrow> jsstring \<Rightarrow> Party" where
  "extractRole ct fragment =
     (let roleMatch = rx_exec True (rx_role (Grp 1 role_words)) fragment;
          role = (case roleMatch of Some m \<Rightarrow> Some (titleCase ct (grp m 1)) | None \<Rightarrow> None);
          nm = trim (replace_all True (rx_role role_words) (\<lambda>_. []) fragment)
      in \<lparr>name = stripQuotes nm, role = role\<rparr>)"

definition org_suffixes :: rx where
  \<comment> \<open>\<^verbatim>\<open>Inc\.?|Incorporated|Corp\.?|Corporation|LLC|L\.?L\.?C\.?|Ltd\.?|Limited|Holdings|Group|Partners|Company\<close>\<close>
  "org_suffixes =
     alts [Seq (Lit (js ''Inc'')) (Opt (Lit (js ''.''))), Lit (js ''Incorporated''),
           Seq (Lit (js ''Corp'')) (Opt (Lit (js ''.''))), Lit (js ''Corporation''), Lit (js ''LLC''),
           seqs [Lit (js ''L''), Opt (Lit (js ''.'')), Lit (js ''L''), Opt (Lit (js ''.'')),
                 Lit (js ''C''), Opt (Lit (js ''.''))],
           Seq (Lit (js ''Ltd'')) (Opt (Lit (js ''.''))), Lit (js ''Limited''), Lit (js ''Holdings''),
           Lit (js ''Group''), Lit (js ''Partners''), Lit (js ''Company'')]"

definition org_char :: "nat \<Rightarrow> bool" where  \<comment> \<open>\<^verbatim>\<open>[A-Za-z0-9&.,'RSQUO\- ]\<close>\<close>
  "org_char c \<longleftrightarrow> in_range ''A'' ''Z'' c \<or> in_range ''a'' ''z'' c \<or> in_range ''0'' ''9'' c
     \<or> one_of (js ''&.,'' @ [APOS, RSQUO] @ js ''- '') c"

definition rx_org_name :: rx where
  \<comment> \<open>\<^verbatim>\<open>/([A-Z][A-Za-z0-9&.,'RSQUO\- ]{2,80}?(?:suffixes))/\<close>\<close>
  "rx_org_name = Grp 1 (seqs [Cls (in_range ''A'' ''Z''), Rep org_char 2 (Some 80) False, org_suffixes])"

fun org_lines :: "jsstring list \<Rightarrow> jsstring list \<Rightarrow> jsstring list" where
  "org_lines out [] = out"
| "org_lines out (ln # lines) =
     (if rx_test True (Grp 1 org_suffixes) ln
      then (case rx_exec False rx_org_name ln of
              Some m \<Rightarrow> org_lines (out @ [scrubName (grp m 1)]) lines
            | None \<Rightarrow> org_lines out lines)
      else org_lines out lines)"

definition findOrgNames :: "jsstring \<Rightarrow> jsstring list" where
  "findOrgNames t = (let lines = take 40 (split False (plus (one_of [NL])) t) in dedupe (org_lines [] lines))"

definition rx_recital :: rx where
  \<comment> \<open>\<^verbatim>\<open>/\b(?:by and )?between\s+(.{2,140}?)\s+and\s+(.{2,140}?)[\.;,\n]/i\<close>\<close>
  "rx_recital =
     seqs [WordB, Opt (Lit (js ''by and '')), Lit (js ''between''), plus is_ws,
           Grp 1 (Rep is_dot 2 (Some 140) False), plus is_ws, Lit (js ''and''), plus is_ws,
           Grp 2 (Rep is_dot 2 (Some 140) False), Cls (one_of (js ''.;,'' @ [NL]))]"

definition push_scrubbed :: "case_tables \<Rightarrow> Party list \<Rightarrow> jsstring \<Rightarrow> Party list" where
  \<comment> \<open>\<^verbatim>\<open>const a = scrubName(c); if (a) candidates.push(extractRole(a));\<close>\<close>
  "push_scrubbed ct candidates c =
     (let a = scrubName c in if a \<noteq> [] then candidates @ [extractRole ct a] else candidates)"

definition recital_captures :: "jsstring \<Rightarrow> (jsstring \<times> jsstring) option" where
  \<comment> \<open>\<^verbatim>\<open>m[1]\<close> and \<^verbatim>\<open>m[2]\<close> of \<^verbatim>\<open>const m = t.match(...)\<close>, when the pattern matches\<close>
  "recital_captures t =
     (case rx_exec True rx_recital t of Some m \<Rightarrow> Some (grp m 1, grp m 2) | None \<Rightarrow> None)"

definition recital :: "case_tables \<Rightarrow> jsstring \<Rightarrow> Party list" where
  "recital ct t =
     (case recital_captures t of
        Some (c1, c2) \<Rightarrow> push_scrubbed ct (push_scrubbed ct [] c1) c2
      | None \<Rightarrow> [])"

fun fallback :: "case_tables \<Rightarrow> Party list \<Rightarrow> jsstring list \<Rightarrow> Party list" where
  "fallback ct candidates [] = candidates"
| "fallback ct candidates (org # orgs) =
     (let candidates = (if find (\<lambda>p. equalName ct (name p) org) candidates = None
                        then candidates @ [extractRole ct org] else candidates)
      in if length candidates \<ge> 2 then candidates else fallback ct candidates orgs)"

definition detectParties :: "case_tables \<Rightarrow> jsstring \<Rightarrow> Party list" where
  "detectParties ct text =
     (let t = normalizeSpaces text;
          candidates = recital ct t;
          candidates = (if length candidates < 2 then fallback ct candidates (findOrgNames t)
                        else candidates)
      in take 5 candidates)"

definition STOPWORDS :: rx where  \<comment> \<open>\<^verbatim>\<open>/^(services?|deliverables?|agreement|parties?)$/i\<close>\<close>
  "STOPWORDS =
     seqs [Bol, Grp 1 (alts [Seq (Lit (js ''service'')) (Opt (Lit (js ''s''))),
                             Seq (Lit (js ''deliverable'')) (Opt (Lit (js ''s''))),
                             Lit (js ''agreement''),
                             Seq (Lit (js ''partie'')) (Opt (Lit (js ''s'')))]), Eol]"

text \<open>The party list that \<^verbatim>\<open>detectAndRenderParties\<close> saves for the text it read.\<close>

definition detected :: "case_tables \<Rightarrow> jsstring \<Rightarrow> Party list" where
  "detected ct text =
     dedupeParties ct
       (filter (\<lambda>p. \<not> rx_test True STOPWORDS (trim (name p))) (detectParties ct text))"

text \<open>The list \<^verbatim>\<open>onAddParty\<close> saves for a manual entry: nothing changes when the entry trims to nothing.\<close>

definition addParty :: "case_tables \<Rightarrow> Party list option \<Rightarrow> jsstring \<Rightarrow> Party list option" where
  "addParty ct parties entry =
     (let nm = trim entry
      in if nm = [] then parties
         else Some (dedupeParties ct
                     ((case parties of Some ps \<Rightarrow> ps | None \<Rightarrow> []) @ [\<lparr>name = nm, role = None\<rparr>])))"

subsection \<open>The document host\<close>

text \<open>
  The add-in talks to Word through \<^verbatim>\<open>Word.run\<close> and to the document settings through
  \<^verbatim>\<open>Office.context.document.settings\<close>. Neither is part of the repository, so what they
  answer is a parameter of the model:
  \<^item> \<open>body_search\<close> is the list of ranges \<^verbatim>\<open>body.search(term, opts)\<close> holds after the
    \<^verbatim>\<open>context.sync()\<close> that loads it;
  \<^item> \<open>sync_inserts\<close> tells whether the \<^verbatim>\<open>context.sync()\<close> that commits queued
    \<^verbatim>\<open>insertContentControl\<close> calls on the given ranges succeeds; a commit that throws
    leaves the document as it was;
  \<^item> \<open>save_async\<close> tells whether \<^verbatim>\<open>settings.saveAsync\<close> reports success.

  Both document answers may depend on the body \<open>'b\<close> (the text and everything else the
  add-in never changes) and on the content controls present. The commits that only load
  or delete (in \<^verbatim>\<open>clearPartyHighlights\<close> and after \<^verbatim>\<open>body.search\<close>) are taken to succeed.
\<close>

record SearchOptions =
  matchCase :: bool
  matchWholeWord :: bool
  ignorePunct :: "bool option"   \<comment> \<open>\<open>None\<close>: the property is not set\<close>
  ignoreSpace :: "bool option"

record 'r ContentControl =
  cc_range :: 'r
  cc_tag :: jsstring
  cc_highlightColor :: "jsstring option"

record ('b, 'r) host =
  body_search :: "'b \<Rightarrow> 'r ContentControl list \<Rightarrow> jsstring \<Rightarrow> SearchOptions \<Rightarrow> 'r list"
  sync_inserts :: "'b \<Rightarrow> 'r ContentControl list \<Rightarrow> 'r list \<Rightarrow> bool"
  save_async :: "Party list option \<Rightarrow> jsstring option \<Rightarrow> bool"

text \<open>
  The state the add-in works on: the document body, its content controls, and the two
  settings \<^verbatim>\<open>ai.parties\<close> and \<^verbatim>\<open>ai.selectedParty\<close>.
\<close>

record ('b, 'r) world =
  body :: 'b
  contentControls :: "'r ContentControl list"
  stored_parties :: "Party list option"
  stored_selected :: "jsstring option"

definition TAG :: jsstring where "TAG = js ''AI_PARTY_HL''"
definition HIGHLIGHT_COLOR :: jsstring where "HIGHLIGHT_COLOR = js ''Turquoise''"
definition BATCH_SIZE :: int where "BATCH_SIZE = 60"
definition PRONOUN_HIT_CAP :: nat where "PRONOUN_HIT_CAP = 250"

definition clearPartyHighlights :: "('b, 'r) world \<Rightarrow> ('b, 'r) world" where
  \<comment> \<open>every control that \<^verbatim>\<open>getByTag(TAG)\<close> returns is deleted, its content kept\<close>
  "clearPartyHighlights w = w\<lparr>contentControls := filter (\<lambda>cc. cc_tag cc \<noteq> TAG) (contentControls w)\<rparr>"

definition insertContentControl :: "'r \<Rightarrow> 'r ContentControl" where
  \<comment> \<open>\<^verbatim>\<open>const cc = r.insertContentControl(); cc.tag = TAG; cc.font.highlightColor = HIGHLIGHT_COLOR;\<close>\<close>
  "insertContentControl r = \<lparr>cc_range = r, cc_tag = TAG, cc_highlightColor = Some HIGHLIGHT_COLOR\<rparr>"

definition commit :: "'r list \<Rightarrow> ('b, 'r) world \<Rightarrow> ('b, 'r) world" where
  "commit rs w = w\<lparr>contentControls := contentControls w @ map insertContentControl rs\<rparr>"

definition searchOptions :: "jsstring \<Rightarrow> bool \<Rightarrow> SearchOptions" where
  "searchOptions term wholeWord =
     (let opts = \<lparr>matchCase = False, matchWholeWord = wholeWord, ignorePunct = None, ignoreSpace = None\<rparr>
      in if length term > 3 then opts\<lparr>ignorePunct := Some True, ignoreSpace := Some True\<rparr> else opts)"

text \<open>The fallback of one batch: each range is committed alone, a failing one is passed over.\<close>

fun per_item :: "('b, 'r) host \<Rightarrow> 'r list \<Rightarrow> ('b, 'r) world \<Rightarrow> nat \<Rightarrow> ('b, 'r) world \<times> nat" where
  "per_item h [] w applied = (w, applied)"
| "per_item h (r # slice) w applied =
     (if sync_inserts h (body w) (contentControls w) [r]
      then per_item h slice (commit [r] w) (applied + 1)
      else per_item h slice w applied)"

text \<open>
  The batch loop \<^verbatim>\<open>for (let start = results.items.length - 1; start >= 0; )\<close>. The index
  \<open>start\<close> is an integer, since it ends at \<open>-1\<close>.
\<close>

function batches_from :: "('b, 'r) host \<Rightarrow> 'r list \<Rightarrow> int \<Rightarrow> ('b, 'r) world \<Rightarrow> nat \<Rightarrow> ('b, 'r) world \<times> nat" where
  "batches_from h items start w applied =
     (if start \<ge> 0 then
        (let endx = max (- 1) (start - BATCH_SIZE);
             slice = map (\<lambda>i. items ! nat i) (rev [endx + 1 .. start])
         in if sync_inserts h (body w) (contentControls w) slice
            then batches_from h items endx (commit slice w) (applied + length slice)
            else (case per_item h slice w applied of
                    (w', applied') \<Rightarrow> batches_from h items endx w' applied'))
      else (w, applied))"
  by pat_completeness auto
termination
  by (relation "measure (\<lambda>(h, items, start, w, applied). nat (start + 1))")
    (auto simp: BATCH_SIZE_def)

definition searchAndHighlight :: "('b, 'r) host \<Rightarrow> jsstring \<Rightarrow> bool \<Rightarrow> ('b, 'r) world \<Rightarrow> ('b, 'r) world \<times> nat" where
  "searchAndHighlight h term wholeWord w =
     (let items = body_search h (body w) (contentControls w) term (searchOptions term wholeWord)
      in if length items > PRONOUN_HIT_CAP \<and> length term \<le> 3 then (w, 0)
         else batches_from h items (int (length items) - 1) w 0)"

subsection \<open>Highlighting a party\<close>

text \<open>
  \<^verbatim>\<open>settings.set(key, name || null)\<close> followed by \<^verbatim>\<open>saveAsync\<close>: the new state and whether the
  promise resolved.
\<close>

definition saveSelected :: "('b, 'r) host \<Rightarrow> jsstring option \<Rightarrow> ('b, 'r) world \<Rightarrow> ('b, 'r) world \<times> bool" where
  "saveSelected h nm w =
     (let w' = w\<lparr>stored_selected := (case nm of Some n \<Rightarrow> if n \<noteq> [] then Some n else None | None \<Rightarrow> None)\<rparr>
      in (w', save_async h (stored_parties w') (stored_selected w')))"

datatype outcome =
    PickFirst                 \<comment> \<open>\<^verbatim>\<open>"Pick a party first."\<close>\<close>
  | Rejected                  \<comment> \<open>a settings save rejected; the handler stops there\<close>
  | Highlighted nat jsstring  \<comment> \<open>\<^verbatim>\<open>"Highlighted N occurrence(s) for NAME."\<close>\<close>
  | ResetDone                 \<comment> \<open>\<^verbatim>\<open>"All add-in highlights removed. Party selection cleared."\<close>\<close>

text \<open>The loop over the terms of \<^verbatim>\<open>onNext\<close>, with the running \<^verbatim>\<open>totalHits\<close>.\<close>

fun highlight_terms :: "('b, 'r) host \<Rightarrow> jsstring list \<Rightarrow> ('b, 'r) world \<Rightarrow> nat \<Rightarrow> ('b, 'r) world \<times> nat" where
  "highlight_terms h [] w totalHits = (w, totalHits)"
| "highlight_terms h (term # terms) w totalHits =
     (case searchAndHighlight h term (\<not> isPossessive term) w of
        (w', hits) \<Rightarrow> highlight_terms h terms w' (totalHits + hits))"

definition sort_terms :: "jsstring list \<Rightarrow> jsstring list" where
  \<comment> \<open>\<^verbatim>\<open>.sort((a, b) => b.length - a.length)\<close>; the sort of an array is stable\<close>
  "sort_terms terms = sort_key (\<lambda>t. - int (length t)) terms"

definition findParty :: "case_tables \<Rightarrow> Party list option \<Rightarrow> jsstring \<Rightarrow> Party" where
  \<comment> \<open>\<^verbatim>\<open>(parties || []).find((p) => equalName(p.name, selected)) || { name: selected }\<close>\<close>
  "findParty ct parties sel =
     (case find (\<lambda>p. equalName ct (name p) sel) (case parties of Some ps \<Rightarrow> ps | None \<Rightarrow> []) of
        Some p \<Rightarrow> p
      | None \<Rightarrow> \<lparr>name = sel, role = None\<rparr>)"

definition partyTerms :: "case_tables \<Rightarrow> Party \<Rightarrow> jsstring list" where
  \<comment> \<open>the sorted \<^verbatim>\<open>terms\<close> of \<^verbatim>\<open>onNext\<close>\<close>
  "partyTerms ct party =
     (let aliases = buildAliases ct party;
          pronouns = pronounsFor (name party)
      in sort_terms (buildTerms (name party) aliases pronouns))"

definition onNext :: "case_tables \<Rightarrow> ('b, 'r) host \<Rightarrow> jsstring option \<Rightarrow> ('b, 'r) world \<Rightarrow> ('b, 'r) world \<times> outcome" where
  "onNext ct h selected w =
     (case selected of
        None \<Rightarrow> (w, PickFirst)
      | Some sel \<Rightarrow>
          if sel = [] then (w, PickFirst)
          else
            (let w = clearPartyHighlights w;
                 party = findParty ct (stored_parties w) sel;
                 terms = partyTerms ct party
             in case saveSelected h (Some (name party)) w of
                  (w, False) \<Rightarrow> (w, Rejected)
                | (w, True) \<Rightarrow>
                    (case highlight_terms h terms w 0 of
                       (w, totalHits) \<Rightarrow> (w, Highlighted totalHits (name party)))))"


subsection \<open>The batches as the specification describes them\<close>

text \<open>
  The specification speaks of batches of at most 60 ranges taken from the last match to
  the first, each committed as a whole or, when that fails, range by range. \<open>chunks\<close> cuts
  a list into such batches, \<open>mark_batch\<close> is the treatment of one batch, and
  \<open>mark_in_batches\<close> runs them over the reversed list of matches. They are compared with
  the index loop \<open>batches_from\<close> of the source below.
\<close>

function chunks :: "nat \<Rightarrow> 'a list \<Rightarrow> 'a list list" where
  "chunks n xs = (if n = 0 \<or> xs = [] then [] else take n xs # chunks n (drop n xs))"
  by pat_completeness auto
termination
  by (relation "measure (\<lambda>(n, xs). length xs)") auto

definition mark_batch :: "('b, 'r) host \<Rightarrow> ('b, 'r) world \<times> nat \<Rightarrow> 'r list \<Rightarrow> ('b, 'r) world \<times> nat" where
  "mark_batch h st slice =
     (case st of (w, applied) \<Rightarrow>
        if sync_inserts h (body w) (contentControls w) slice
        then (commit slice w, applied + length slice)
        else per_item h slice w applied)"

definition mark_in_batches :: "('b, 'r) host \<Rightarrow> 'r list \<Rightarrow> ('b, 'r) world \<Rightarrow> ('b, 'r) world \<times> nat" where
  "mark_in_batches h items w = foldl (mark_batch h) (w, 0) (chunks 60 (rev items))"

declare batches_from.simps [simp del] chunks.simps [simp del]
  replace_from.simps [simp del] split_from.simps [simp del]

section \<open>Properties\<close>

subsection \<open>Strings\<close>

lemma js_Nil [simp]: "js [] = []"
  by (simp add: js_def)

lemma js_Cons [simp]: "js (c # cs) = of_char c # js cs"
  by (simp add: js_def)

lemma endsWith_single: "endsWith s [c] \<longleftrightarrow> s \<noteq> [] \<and> last s = c"
proof (cases s rule: rev_cases)
  case Nil
  then show ?thesis by (simp add: endsWith_def)
next
  case (snoc ys y)
  then show ?thesis by (auto simp: endsWith_def)
qed

lemma trim_keeps_head:
  assumes "xs = [] \<or> \<not> P (hd xs)"
  shows "dropWhile P (rev (dropWhile P (rev xs))) = rev (dropWhile P (rev xs))"
proof (cases xs)
  case Nil
  then show ?thesis by simp
next
  case (Cons x xs')
  with assms have nx: "\<not> P x" by simp
  then have "dropWhile P (rev xs' @ [x]) = dropWhile P (rev xs') @ [x]"
    by (simp add: dropWhile_append3)
  with Cons nx show ?thesis by simp
qed

lemma trim_trim: "trim (trim s) = trim s"
proof -
  let ?a = "dropWhile is_ws s"
  have a: "?a = [] \<or> \<not> is_ws (hd ?a)"
    using hd_dropWhile[of is_ws s] by blast
  have "dropWhile is_ws (trim s) = trim s"
    using trim_keeps_head[of ?a is_ws, OF a] by (simp add: trim_def)
  then show ?thesis by (simp add: trim_def)
qed

lemma trim_plain:
  assumes "xs \<noteq> []" "\<not> is_ws (hd xs)" "\<not> is_ws (last xs)"
  shows "trim xs = xs"
proof -
  from assms have 1: "dropWhile is_ws xs = xs" by (cases xs) auto
  from assms have "dropWhile is_ws (rev xs) = rev xs" by (cases xs rule: rev_cases) auto
  with 1 show ?thesis by (simp add: trim_def)
qed

subsection \<open>Term building\<close>

lemma makePossessive_last:
  "s \<noteq> [] \<Longrightarrow>
   makePossessive s = (if last s = 115 \<or> last s = 83 then s @ [APOS] else s @ [APOS, 115])"
  by (simp add: makePossessive_def endsWith_single)

lemma foldl_add_alias:
  "foldl add_alias u as = foldl add u (concat (map (\<lambda>a. [a, makePossessive a]) as))"
  by (induction as arbitrary: u) (simp_all add: add_alias_def)

lemma buildTerms_offers:
  "buildTerms nm aliases pronouns =
     foldl add [] ([nm, makePossessive nm] @ concat (map (\<lambda>a. [a, makePossessive a]) aliases) @ pronouns)"
  by (simp add: buildTerms_def foldl_add_alias)

lemma set_add: "set (add u s) = set u \<union> (if trim s \<noteq> [] then {trim s} else {})"
  by (auto simp: add_def set_add_def trim_def)

lemma set_foldl_add:
  "set (foldl add u xs) = set u \<union> {trim x | x. x \<in> set xs \<and> trim x \<noteq> []}"
  by (induction xs arbitrary: u) (auto simp: set_add)

lemma distinct_add: "distinct u \<Longrightarrow> distinct (add u s)"
  by (simp add: add_def set_add_def)

lemma distinct_foldl_add: "distinct u \<Longrightarrow> distinct (foldl add u xs)"
  by (induction xs arbitrary: u) (simp_all add: distinct_add)

lemma add_fresh: "s \<noteq> [] \<Longrightarrow> trim s = s \<Longrightarrow> s \<notin> set u \<Longrightarrow> add u s = u @ [s]"
  by (simp add: add_def set_add_def)

lemma foldl_add_fresh:
  "distinct (u @ xs) \<Longrightarrow> \<forall>x\<in>set xs. x \<noteq> [] \<and> trim x = x \<Longrightarrow> foldl add u xs = u @ xs"
  by (induction xs arbitrary: u) (simp_all add: add_fresh)

lemmas rx_eval = rx_test_def rx_exec_def match_at_def canon_def upper_cu_def one_of_def
  at_word_boundary_def is_word_def

lemma pronounsFor_Acme_Inc: "pronounsFor (js ''Acme Inc'') = [js ''it'', js ''its'', js ''itself'']"
  by (simp add: pronounsFor_def rx_plural_words_def rx_final_s_def rx_eval)

lemma pronounsFor_Acme_Holdings:
  "pronounsFor (js ''Acme Holdings'') = [js ''they'', js ''their'', js ''themselves'']"
  by (simp add: pronounsFor_def rx_plural_words_def rx_final_s_def rx_eval)

lemma ascii_faithful_tables: "ascii_faithful ascii_tables"
  by (simp add: ascii_faithful_def ascii_tables_def)

lemma ascii_toLowerCase: "ascii_faithful ct \<Longrightarrow> is_ascii s \<Longrightarrow> toLowerCase ct s = ascii_lower s"
  by (simp add: ascii_faithful_def)

lemma ascii_toUpperCase: "ascii_faithful ct \<Longrightarrow> is_ascii s \<Longrightarrow> toUpperCase ct s = ascii_upper s"
  by (simp add: ascii_faithful_def)

lemmas ascii_eval = is_ascii_def ascii_lower_def ascii_upper_def lower_cu_def upper_cu_def

lemma buildAliases_Client:
  assumes "ascii_faithful ct"
  shows "buildAliases ct \<lparr>name = nm, role = Some (js ''Client'')\<rparr> =
     [js ''Client'', js ''the Client'', js ''CLIENT'', js ''the CLIENT'']"
  by (simp add: buildAliases_def addForms_def dedupe_def set_add_def
      ascii_toUpperCase[OF assms] ascii_eval)

lemma buildTerms_Acme_Inc:
  assumes "ascii_faithful ct"
  shows "buildTerms (js ''Acme Inc'') (buildAliases ct \<lparr>name = js ''Acme Inc'', role = Some (js ''Client'')\<rparr>)
     (pronounsFor (js ''Acme Inc'')) =
   [js ''Acme Inc'', js ''Acme Inc'' @ [APOS] @ js ''s'',
    js ''Client'', js ''Client'' @ [APOS] @ js ''s'',
    js ''the Client'', js ''the Client'' @ [APOS] @ js ''s'',
    js ''CLIENT'', js ''CLIENT'' @ [APOS] @ js ''s'',
    js ''the CLIENT'', js ''the CLIENT'' @ [APOS] @ js ''s'',
    js ''it'', js ''its'', js ''itself'']" (is "?lhs = ?T")
proof -
  have d: "distinct ?T" by simp
  have t: "\<forall>x\<in>set ?T. x \<noteq> [] \<and> trim x = x" by (simp add: trim_plain is_ws_def)
  have p: "[js ''Acme Inc'', makePossessive (js ''Acme Inc'')]
      @ concat (map (\<lambda>a. [a, makePossessive a])
                 [js ''Client'', js ''the Client'', js ''CLIENT'', js ''the CLIENT''])
      @ [js ''it'', js ''its'', js ''itself''] = ?T"
    by (simp add: makePossessive_def endsWith_def)
  have "foldl add [] ?T = ?T"
    using foldl_add_fresh[of "[]" ?T] d t by simp
  then show ?thesis
    unfolding pronounsFor_Acme_Inc buildAliases_Client[OF assms] buildTerms_offers p .
qed

text \<open>
  C8. For every non-empty string \<open>s\<close>, \<open>makePossessive s\<close> is \<open>s\<close> followed by an apostrophe
  and an \<open>s\<close>, unless \<open>s\<close> already ends in \<open>s\<close> or \<open>S\<close>, when only the apostrophe is appended:
  \<open>Acme\<close> gives \<open>Acme's\<close> and \<open>Holdings\<close> gives \<open>Holdings'\<close>. The strings \<open>buildTerms\<close> offers
  to its set are the name and its possessive, each alias followed by its possessive, and
  then the pronouns as they are: no possessive of a pronoun is formed, so for the party
  \<open>Acme Inc\<close> with singular pronouns the term \<open>it's\<close> is not a term (the aliases of the
  party are upper-cased by the engine, which is exact on ASCII).
\<close>

theorem makePossessive_spec:
  "(s \<noteq> [] \<longrightarrow>
      makePossessive s = (if last s = 115 \<or> last s = 83 then s @ [APOS] else s @ [APOS] @ js ''s''))
   \<and> makePossessive (js ''Acme'') = js ''Acme'' @ [APOS] @ js ''s''
   \<and> makePossessive (js ''Holdings'') = js ''Holdings'' @ [APOS]
   \<and> buildTerms nm aliases pronouns =
       foldl add [] ([nm, makePossessive nm] @ concat (map (\<lambda>a. [a, makePossessive a]) aliases)
                     @ pronouns)
   \<and> set (buildTerms nm aliases pronouns) =
       {trim x | x. x \<in> {nm, makePossessive nm} \<union> set aliases \<union> makePossessive ` set aliases
                         \<union> set pronouns \<and> trim x \<noteq> []}
   \<and> makePossessive (js ''it'') = js ''it'' @ [APOS] @ js ''s''
   \<and> (ascii_faithful ct \<longrightarrow>
        js ''it'' @ [APOS] @ js ''s''
          \<notin> set (buildTerms (js ''Acme Inc'')
                    (buildAliases ct \<lparr>name = js ''Acme Inc'', role = Some (js ''Client'')\<rparr>)
                    (pronounsFor (js ''Acme Inc''))))"
proof -
  have 1: "s \<noteq> [] \<longrightarrow>
      makePossessive s = (if last s = 115 \<or> last s = 83 then s @ [APOS] else s @ [APOS] @ js ''s'')"
    by (simp add: makePossessive_last)
  have 2: "makePossessive (js ''Acme'') = js ''Acme'' @ [APOS] @ js ''s''"
    by (simp add: makePossessive_def endsWith_def)
  have 3: "makePossessive (js ''Holdings'') = js ''Holdings'' @ [APOS]"
    by (simp add: makePossessive_def endsWith_def)
  have 5: "set (buildTerms nm aliases pronouns) =
       {trim x | x. x \<in> {nm, makePossessive nm} \<union> set aliases \<union> makePossessive ` set aliases
                         \<union> set pronouns \<and> trim x \<noteq> []}"
    unfolding buildTerms_offers set_foldl_add by auto
  have 6: "makePossessive (js ''it'') = js ''it'' @ [APOS] @ js ''s''"
    by (simp add: makePossessive_def endsWith_def)
  have 7: "js ''it'' @ [APOS] @ js ''s''
       \<notin> set (buildTerms (js ''Acme Inc'') (buildAliases ct \<lparr>name = js ''Acme Inc'', role = Some (js ''Client'')\<rparr>)
                 (pronounsFor (js ''Acme Inc'')))" if "ascii_faithful ct"
    unfolding buildTerms_Acme_Inc[OF that] by simp
  from 1 2 3 5 6 7 show ?thesis
    using buildTerms_offers[of nm aliases pronouns] by blast
qed

theorem makePossessive_spec_witness:
  "js ''Acme'' \<noteq> [] \<and> makePossessive (js ''Acme'') = js ''Acme'' @ [APOS] @ js ''s''
   \<and> ascii_faithful ascii_tables
   \<and> js ''it'' @ [APOS] @ js ''s''
          \<notin> set (buildTerms (js ''Acme Inc'')
                    (buildAliases ascii_tables \<lparr>name = js ''Acme Inc'', role = Some (js ''Client'')\<rparr>)
                    (pronounsFor (js ''Acme Inc'')))"
proof -
  note t = makePossessive_spec[where s = "js ''Acme''" and nm = "[]" and aliases = "[]"
      and pronouns = "[]" and ct = ascii_tables]
  have h: "js ''Acme'' \<noteq> []" by simp
  have "js ''Acme'' \<noteq> [] \<longrightarrow> makePossessive (js ''Acme'')
      = (if last (js ''Acme'') = 115 \<or> last (js ''Acme'') = 83 then js ''Acme'' @ [APOS]
         else js ''Acme'' @ [APOS] @ js ''s'')"
    using t by (rule conjunct1)
  with h have 1: "makePossessive (js ''Acme'') = js ''Acme'' @ [APOS] @ js ''s''" by simp
  from t ascii_faithful_tables have "js ''it'' @ [APOS] @ js ''s''
          \<notin> set (buildTerms (js ''Acme Inc'')
                    (buildAliases ascii_tables \<lparr>name = js ''Acme Inc'', role = Some (js ''Client'')\<rparr>)
                    (pronounsFor (js ''Acme Inc'')))"
    by blast
  with h 1 ascii_faithful_tables show ?thesis by blast
qed

text \<open>
  C5. For the party \<open>Acme Inc\<close> with role \<open>Client\<close>, \<open>buildTerms\<close> on its aliases and pronouns
  returns exactly the 13 terms Acme Inc, Acme Inc's, Client, Client's, the Client,
  the Client's, CLIENT, CLIENT's, the CLIENT, the CLIENT's, it, its, itself, without a
  duplicate (for every engine whose case tables are exact on ASCII). For all arguments the result of \<open>buildTerms\<close> has no duplicates, and each of
  its strings is non-empty and trimmed.
\<close>

theorem buildTerms_spec:
  "(ascii_faithful ct \<longrightarrow>
      buildTerms (js ''Acme Inc'') (buildAliases ct \<lparr>name = js ''Acme Inc'', role = Some (js ''Client'')\<rparr>)
        (pronounsFor (js ''Acme Inc'')) =
        [js ''Acme Inc'', js ''Acme Inc'' @ [APOS] @ js ''s'',
         js ''Client'', js ''Client'' @ [APOS] @ js ''s'',
         js ''the Client'', js ''the Client'' @ [APOS] @ js ''s'',
         js ''CLIENT'', js ''CLIENT'' @ [APOS] @ js ''s'',
         js ''the CLIENT'', js ''the CLIENT'' @ [APOS] @ js ''s'',
         js ''it'', js ''its'', js ''itself'']
      \<and> length (buildTerms (js ''Acme Inc'')
            (buildAliases ct \<lparr>name = js ''Acme Inc'', role = Some (js ''Client'')\<rparr>)
            (pronounsFor (js ''Acme Inc''))) = 13)
   \<and> distinct (buildTerms nm aliases pronouns)
   \<and> (\<forall>t \<in> set (buildTerms nm aliases pronouns). t \<noteq> [] \<and> trim t = t)"
proof -
  have d: "distinct (buildTerms nm aliases pronouns)"
    unfolding buildTerms_offers by (rule distinct_foldl_add) simp
  have t: "\<forall>t \<in> set (buildTerms nm aliases pronouns). t \<noteq> [] \<and> trim t = t"
    unfolding buildTerms_offers set_foldl_add by (auto simp: trim_trim)
  have l: "length (buildTerms (js ''Acme Inc'')
         (buildAliases ct \<lparr>name = js ''Acme Inc'', role = Some (js ''Client'')\<rparr>)
         (pronounsFor (js ''Acme Inc''))) = 13" if "ascii_faithful ct"
    unfolding buildTerms_Acme_Inc[OF that] by simp
  from d t l buildTerms_Acme_Inc[of ct] show ?thesis by blast
qed

theorem buildTerms_spec_witness:
  "js ''Acme'' \<in> set (buildTerms (js '' Acme '') [js ''  '', js ''Acme''] [])
   \<and> js ''Acme'' \<noteq> [] \<and> trim (js ''Acme'') = js ''Acme''
   \<and> ascii_faithful ascii_tables
   \<and> length (buildTerms (js ''Acme Inc'')
        (buildAliases ascii_tables \<lparr>name = js ''Acme Inc'', role = Some (js ''Client'')\<rparr>)
        (pronounsFor (js ''Acme Inc''))) = 13"
proof -
  note t = buildTerms_spec[where nm = "js '' Acme ''" and aliases = "[js ''  '', js ''Acme'']"
      and pronouns = "[]" and ct = ascii_tables]
  have tr: "trim (js '' Acme '') = js ''Acme''"
    by (simp add: trim_def is_ws_def)
  have "js ''Acme'' = trim (js '' Acme '') \<and> js '' Acme '' \<in> set ([js '' Acme '',
      makePossessive (js '' Acme '')] @ concat (map (\<lambda>a. [a, makePossessive a]) [js ''  '', js ''Acme''])
      @ []) \<and> trim (js '' Acme '') \<noteq> []"
    unfolding tr by simp
  then have m: "js ''Acme'' \<in> set (buildTerms (js '' Acme '') [js ''  '', js ''Acme''] [])"
    unfolding buildTerms_offers set_foldl_add by blast
  have "\<forall>t \<in> set (buildTerms (js '' Acme '') [js ''  '', js ''Acme''] []). t \<noteq> [] \<and> trim t = t"
    using t by blast
  moreover from t ascii_faithful_tables have "length (buildTerms (js ''Acme Inc'')
        (buildAliases ascii_tables \<lparr>name = js ''Acme Inc'', role = Some (js ''Client'')\<rparr>)
        (pronounsFor (js ''Acme Inc''))) = 13"
    by blast
  ultimately show ?thesis using m ascii_faithful_tables by blast
qed

subsection \<open>De-duplication of parties\<close>

lemma find_append_case:
  "find P (xs @ ys) = (case find P xs of Some x \<Rightarrow> Some x | None \<Rightarrow> find P ys)"
  by (induction xs) auto

lemma dedupe_loop_find:
  "set seen = party_key ct ` set out \<Longrightarrow>
   find (\<lambda>q. party_key ct q = k) (dedupe_loop ct seen out arr) =
     (case find (\<lambda>q. party_key ct q = k) out of Some p \<Rightarrow> Some p
      | None \<Rightarrow> find (\<lambda>q. party_key ct q = k) arr)"
proof (induction arr arbitrary: seen out)
  case Nil
  then show ?case by (simp split: option.split)
next
  case (Cons p arr)
  show ?case
  proof (cases "party_key ct p \<in> set seen")
    case True
    with Cons.prems obtain q where q: "q \<in> set out" "party_key ct q = party_key ct p" by auto
    have "party_key ct p = k \<Longrightarrow> find (\<lambda>q. party_key ct q = k) out \<noteq> None"
      using q by (auto simp: find_None_iff)
    with True Cons.IH[OF Cons.prems] show ?thesis
      by (auto split: option.splits)
  next
    case False
    have inv: "set (set_add seen (party_key ct p)) = party_key ct ` set (out @ [p])"
      using Cons.prems by (auto simp: set_add_def)
    from False Cons.IH[OF inv] show ?thesis
      by (auto simp: find_append_case split: option.splits)
  qed
qed

lemma dedupe_loop_distinct:
  "set seen = party_key ct ` set out \<Longrightarrow> distinct (map (party_key ct) out) \<Longrightarrow>
   distinct (map (party_key ct) (dedupe_loop ct seen out arr))"
proof (induction arr arbitrary: seen out)
  case Nil
  then show ?case by simp
next
  case (Cons p arr)
  show ?case
  proof (cases "party_key ct p \<in> set seen")
    case True
    with Cons show ?thesis by simp
  next
    case False
    have inv: "set (set_add seen (party_key ct p)) = party_key ct ` set (out @ [p])"
      using Cons.prems by (auto simp: set_add_def)
    have "distinct (map (party_key ct) (out @ [p]))"
      using Cons.prems False by auto
    from Cons.IH[OF inv this] False show ?thesis by simp
  qed
qed

lemma dedupe_loop_set: "set (dedupe_loop ct seen out arr) \<subseteq> set out \<union> set arr"
proof (induction arr arbitrary: seen out)
  case Nil
  show ?case by simp
next
  case (Cons p arr)
  have a: "set (dedupe_loop ct (set_add seen (party_key ct p)) (out @ [p]) arr) \<subseteq> set (out @ [p]) \<union> set arr"
    by (rule Cons.IH)
  have b: "set (dedupe_loop ct seen out arr) \<subseteq> set out \<union> set arr"
    by (rule Cons.IH)
  from a b show ?case by (auto simp: Let_def)
qed

lemma dedupe_example:
  assumes "ascii_faithful ct"
  shows "dedupeParties ct [\<lparr>name = js ''Acme'', role = None\<rparr>, \<lparr>name = js ''ACME'', role = None\<rparr>,
                    \<lparr>name = js ''Beta'', role = None\<rparr>]
      = [\<lparr>name = js ''Acme'', role = None\<rparr>, \<lparr>name = js ''Beta'', role = None\<rparr>]"
  by (simp add: dedupeParties_def set_add_def trim_plain is_ws_def
      ascii_toLowerCase[OF assms] ascii_eval)

text \<open>
  C9. \<open>dedupeParties\<close> on Acme, ACME, Beta returns exactly Acme, Beta (for every engine
  whose case tables are exact on ASCII). For every list and whatever the engine's
  \<^verbatim>\<open>toLowerCase\<close> is, no two parties of the result have the same trimmed, lower-cased
  name; for every party of the input, the party of that key in the result is the first
  party of that key in the input (the record with its role); and the result holds parties
  of the input only.
\<close>

theorem dedupeParties_spec:
  "(ascii_faithful ct \<longrightarrow>
      dedupeParties ct [\<lparr>name = js ''Acme'', role = None\<rparr>, \<lparr>name = js ''ACME'', role = None\<rparr>,
                        \<lparr>name = js ''Beta'', role = None\<rparr>]
        = [\<lparr>name = js ''Acme'', role = None\<rparr>, \<lparr>name = js ''Beta'', role = None\<rparr>])
   \<and> distinct (map (\<lambda>p. toLowerCase ct (trim (name p))) (dedupeParties ct arr))
   \<and> (\<forall>p \<in> set arr.
         find (\<lambda>q. toLowerCase ct (trim (name q)) = toLowerCase ct (trim (name p))) (dedupeParties ct arr)
         = find (\<lambda>q. toLowerCase ct (trim (name q)) = toLowerCase ct (trim (name p))) arr)
   \<and> set (dedupeParties ct arr) \<subseteq> set arr"
proof -
  have d: "distinct (map (party_key ct) (dedupeParties ct arr))"
    unfolding dedupeParties_def by (rule dedupe_loop_distinct) simp_all
  have f: "find (\<lambda>q. party_key ct q = k) (dedupeParties ct arr) = find (\<lambda>q. party_key ct q = k) arr" for k
    unfolding dedupeParties_def by (simp add: dedupe_loop_find)
  have s: "set (dedupeParties ct arr) \<subseteq> set arr"
    unfolding dedupeParties_def using dedupe_loop_set[of ct "[]" "[]" arr] by simp
  from d f s dedupe_example[of ct] show ?thesis by blast
qed

theorem dedupeParties_spec_witness:
  "ascii_faithful ascii_tables
   \<and> dedupeParties ascii_tables [\<lparr>name = js ''Acme'', role = None\<rparr>, \<lparr>name = js ''ACME'', role = None\<rparr>,
                        \<lparr>name = js ''Beta'', role = None\<rparr>]
        = [\<lparr>name = js ''Acme'', role = None\<rparr>, \<lparr>name = js ''Beta'', role = None\<rparr>]
   \<and> \<lparr>name = js ''ACME '', role = None\<rparr>
     \<in> set [\<lparr>name = js ''Acme'', role = Some (js ''Client'')\<rparr>, \<lparr>name = js ''ACME '', role = None\<rparr>]
   \<and> find (\<lambda>q. toLowerCase ascii_tables (trim (name q)) = toLowerCase ascii_tables (trim (js ''ACME '')))
        (dedupeParties ascii_tables [\<lparr>name = js ''Acme'', role = Some (js ''Client'')\<rparr>,
                        \<lparr>name = js ''ACME '', role = None\<rparr>])
     = Some \<lparr>name = js ''Acme'', role = Some (js ''Client'')\<rparr>"
proof -
  note t = dedupeParties_spec[where ct = ascii_tables
      and arr = "[\<lparr>name = js ''Acme'', role = Some (js ''Client'')\<rparr>, \<lparr>name = js ''ACME '', role = None\<rparr>]"]
  from t ascii_faithful_tables have 1: "dedupeParties ascii_tables
        [\<lparr>name = js ''Acme'', role = None\<rparr>, \<lparr>name = js ''ACME'', role = None\<rparr>,
         \<lparr>name = js ''Beta'', role = None\<rparr>]
        = [\<lparr>name = js ''Acme'', role = None\<rparr>, \<lparr>name = js ''Beta'', role = None\<rparr>]"
    by blast
  have 2: "\<lparr>name = js ''ACME '', role = None\<rparr>
     \<in> set [\<lparr>name = js ''Acme'', role = Some (js ''Client'')\<rparr>, \<lparr>name = js ''ACME '', role = None\<rparr>]
   \<and> find (\<lambda>q. toLowerCase ascii_tables (trim (name q)) = toLowerCase ascii_tables (trim (js ''ACME '')))
        (dedupeParties ascii_tables [\<lparr>name = js ''Acme'', role = Some (js ''Client'')\<rparr>,
                        \<lparr>name = js ''ACME '', role = None\<rparr>])
     = Some \<lparr>name = js ''Acme'', role = Some (js ''Client'')\<rparr>"
    using t by (simp add: ascii_tables_def ascii_eval trim_def is_ws_def)
  from 1 2 ascii_faithful_tables show ?thesis by blast
qed

subsection \<open>The batch loop\<close>

lemma mark_batch_pair:
  "mark_batch h (w, applied) slice =
     (if sync_inserts h (body w) (contentControls w) slice
      then (commit slice w, applied + length slice)
      else per_item h slice w applied)"
  by (simp add: mark_batch_def)

lemma map_int_upt: "map int [a..<b] = [int a .. int b - 1]"
proof (induction b)
  case 0
  then show ?case by simp
next
  case (Suc b)
  show ?case
  proof (cases "a \<le> b")
    case True
    then have "[int a .. int (Suc b) - 1] = [int a .. int b - 1] @ [int b]"
      using upto_rec2[of "int a" "int b"] by simp
    with Suc True show ?thesis by simp
  next
    case False
    then show ?thesis by simp
  qed
qed

lemma map_nth_slice: "b \<le> length xs \<Longrightarrow> map ((!) xs) [a..<b] = drop a (take b xs)"
  by (rule nth_equalityI) auto

lemma slice_eq:
  assumes "k \<le> length items" "0 < k"
  shows "map (\<lambda>i. items ! nat i) (rev [max (- 1) (int k - 1 - BATCH_SIZE) + 1 .. int k - 1])
          = take 60 (rev (take k items))"
proof -
  have e: "max (- 1) (int k - 1 - BATCH_SIZE) + 1 = int (k - 60)"
    by (auto simp: BATCH_SIZE_def)
  have "map (\<lambda>i. items ! nat i) (rev [int (k - 60) .. int k - 1])
        = rev (map (\<lambda>i. items ! nat i) (map int [k - 60..<k]))"
    by (simp add: map_int_upt rev_map)
  also have "\<dots> = rev (map ((!) items) [k - 60..<k])"
    by (simp add: comp_def)
  also have "\<dots> = rev (drop (k - 60) (take k items))"
    using assms by (simp add: map_nth_slice)
  also have "\<dots> = take 60 (rev (take k items))"
    using assms by (simp add: take_rev)
  finally show ?thesis by (simp only: e)
qed

lemma batches_from_chunks:
  "k \<le> length items \<Longrightarrow>
   batches_from h items (int k - 1) w applied
     = foldl (mark_batch h) (w, applied) (chunks 60 (rev (take k items)))"
proof (induction k arbitrary: w applied rule: less_induct)
  case (less k)
  show ?case
  proof (cases "k = 0")
    case True
    then show ?thesis by (simp add: batches_from.simps[of _ _ "- 1"] chunks.simps[of _ "[]"])
  next
    case False
    then have pos: "0 < k" by simp
    let ?endx = "max (- 1) (int k - 1 - BATCH_SIZE)"
    let ?slice = "take 60 (rev (take k items))"
    have e: "?endx = int (k - 60) - 1" by (auto simp: BATCH_SIZE_def)
    have sl: "map (\<lambda>i. items ! nat i) (rev [?endx + 1 .. int k - 1]) = ?slice"
      by (rule slice_eq[OF less.prems pos])
    have rest: "drop 60 (rev (take k items)) = rev (take (k - 60) items)"
      using less.prems by (simp add: drop_rev min_def)
    have ne: "rev (take k items) \<noteq> []" using pos less.prems by auto
    have ch: "chunks 60 (rev (take k items)) = ?slice # chunks 60 (rev (take (k - 60) items))"
      using ne rest by (subst chunks.simps) simp
    have ih: "batches_from h items (int (k - 60) - 1) w' a'
        = foldl (mark_batch h) (w', a') (chunks 60 (rev (take (k - 60) items)))" for w' a'
      using less.IH[of "k - 60" w' a'] pos less.prems by simp
    have unf: "batches_from h items (int k - 1) w applied =
       (if sync_inserts h (body w) (contentControls w) ?slice
        then batches_from h items ?endx (commit ?slice w) (applied + length ?slice)
        else (case per_item h ?slice w applied of
                (w', applied') \<Rightarrow> batches_from h items ?endx w' applied'))"
      using pos by (subst batches_from.simps) (simp only: sl Let_def, simp)
    show ?thesis
      unfolding unf ch e by (simp add: ih mark_batch_pair split: prod.split)
  qed
qed

lemma searchAndHighlight_batches:
  "\<not> (length (body_search h (body w) (contentControls w) term (searchOptions term wholeWord)) > PRONOUN_HIT_CAP
       \<and> length term \<le> 3) \<Longrightarrow>
   searchAndHighlight h term wholeWord w
     = mark_in_batches h (body_search h (body w) (contentControls w) term (searchOptions term wholeWord)) w"
  using batches_from_chunks[of "length (body_search h (body w) (contentControls w) term (searchOptions term wholeWord))"
       "body_search h (body w) (contentControls w) term (searchOptions term wholeWord)" h w 0]
  by (auto simp: searchAndHighlight_def mark_in_batches_def Let_def)

lemma commit_Nil: "commit [] w = w"
  by (simp add: commit_def)

lemma commit_append: "commit ys (commit xs w) = commit (xs @ ys) w"
  by (simp add: commit_def)

lemma chunks_Nil: "chunks n [] = []"
  by (simp add: chunks.simps)

lemma concat_chunks: "0 < n \<Longrightarrow> concat (chunks n xs) = xs"
proof (induction n xs rule: chunks.induct)
  case (1 n xs)
  show ?case
  proof (cases "xs = []")
    case True
    then show ?thesis by (simp add: chunks_Nil)
  next
    case False
    with 1 show ?thesis by (subst chunks.simps) simp
  qed
qed

lemma chunks_bounded: "c \<in> set (chunks n xs) \<Longrightarrow> c \<noteq> [] \<and> length c \<le> n"
proof (induction n xs rule: chunks.induct)
  case (1 n xs)
  show ?case
  proof (cases "n = 0 \<or> xs = []")
    case True
    with 1(2) show ?thesis by (simp add: chunks.simps)
  next
    case False
    with 1(2) have "c = take n xs \<or> c \<in> set (chunks n (drop n xs))"
      by (subst (asm) chunks.simps) simp
    with 1(1) False show ?thesis by auto
  qed
qed

lemma per_item_commits:
  "\<exists>rs. subseq rs slice \<and> per_item h slice w applied = (commit rs w, applied + length rs)"
proof (induction slice arbitrary: w applied)
  case Nil
  show ?case by (simp add: commit_Nil)
next
  case (Cons r slice)
  show ?case
  proof (cases "sync_inserts h (body w) (contentControls w) [r]")
    case True
    from Cons[of "commit [r] w" "applied + 1"] obtain rs where
      "subseq rs slice" "per_item h slice (commit [r] w) (applied + 1) = (commit rs (commit [r] w), applied + 1 + length rs)"
      by blast
    with True have "subseq (r # rs) (r # slice) \<and>
        per_item h (r # slice) w applied = (commit (r # rs) w, applied + length (r # rs))"
      by (simp add: commit_append)
    then show ?thesis by blast
  next
    case False
    from Cons[of w applied] obtain rs where
      "subseq rs slice" "per_item h slice w applied = (commit rs w, applied + length rs)"
      by blast
    with False have "subseq rs (r # slice) \<and>
        per_item h (r # slice) w applied = (commit rs w, applied + length rs)"
      by (simp add: list_emb_Cons)
    then show ?thesis by blast
  qed
qed

lemma mark_batch_commits:
  "\<exists>rs. subseq rs slice \<and> mark_batch h (w, applied) slice = (commit rs w, applied + length rs)"
proof (cases "sync_inserts h (body w) (contentControls w) slice")
  case True
  then have "subseq slice slice \<and> mark_batch h (w, applied) slice = (commit slice w, applied + length slice)"
    by (simp add: mark_batch_pair)
  then show ?thesis by blast
next
  case False
  then show ?thesis using per_item_commits[of slice h w applied] by (simp add: mark_batch_pair)
qed

lemma foldl_mark_batch_commits:
  "\<exists>rs. subseq rs (concat bs) \<and> foldl (mark_batch h) (w, applied) bs = (commit rs w, applied + length rs)"
proof (induction bs arbitrary: w applied)
  case Nil
  show ?case by (simp add: commit_Nil)
next
  case (Cons b bs)
  from mark_batch_commits[of b h w applied] obtain r1 where
    r1: "subseq r1 b" "mark_batch h (w, applied) b = (commit r1 w, applied + length r1)" by blast
  from Cons[of "commit r1 w" "applied + length r1"] obtain r2 where
    r2: "subseq r2 (concat bs)"
        "foldl (mark_batch h) (commit r1 w, applied + length r1) bs
           = (commit r2 (commit r1 w), applied + length r1 + length r2)" by blast
  from r1 r2 have "subseq (r1 @ r2) (concat (b # bs)) \<and>
     foldl (mark_batch h) (w, applied) (b # bs) = (commit (r1 @ r2) w, applied + length (r1 @ r2))"
    by (simp add: commit_append list_emb_append_mono)
  then show ?case by blast
qed

lemma per_item_valid:
  assumes "\<And>b c rs. sync_inserts h b c rs = (\<forall>r\<in>set rs. valid r)"
  shows "per_item h slice w applied = (commit (filter valid slice) w, applied + length (filter valid slice))"
  by (induction slice arbitrary: w applied) (simp_all add: assms commit_Nil commit_append)

lemma mark_batch_valid:
  assumes "\<And>b c rs. sync_inserts h b c rs = (\<forall>r\<in>set rs. valid r)"
  shows "mark_batch h (w, applied) slice = (commit (filter valid slice) w, applied + length (filter valid slice))"
proof (cases "\<forall>r\<in>set slice. valid r")
  case True
  then have "filter valid slice = slice" by simp
  with True show ?thesis by (simp add: mark_batch_pair assms)
next
  case False
  then show ?thesis by (simp add: mark_batch_pair assms per_item_valid[OF assms])
qed

lemma foldl_mark_batch_valid:
  assumes "\<And>b c rs. sync_inserts h b c rs = (\<forall>r\<in>set rs. valid r)"
  shows "foldl (mark_batch h) (w, applied) bs
     = (commit (filter valid (concat bs)) w, applied + length (filter valid (concat bs)))"
  by (induction bs arbitrary: w applied)
    (simp_all add: mark_batch_valid[OF assms] commit_Nil commit_append)

lemma mark_in_batches_valid:
  assumes "\<And>b c rs. sync_inserts h b c rs = (\<forall>r\<in>set rs. valid r)"
  shows "mark_in_batches h items w
     = (commit (filter valid (rev items)) w, length (filter valid items))"
  unfolding mark_in_batches_def foldl_mark_batch_valid[OF assms]
  by (simp add: concat_chunks flip: rev_filter)

text \<open>
  C3. When the term has at most 3 characters and the search returns more than 250 matches,
  \<open>searchAndHighlight\<close> returns 0 and leaves the document as it is. When the term has more
  than 3 characters there is no cap: whatever the number of matches, all of them go
  through the batches, and on a host that accepts every commit each match is annotated
  and the count is the number of matches.
\<close>

theorem noise_cap:
  assumes "items = body_search h (body w) (contentControls w) term (searchOptions term wholeWord)"
  shows "(length term \<le> 3 \<and> length items > 250 \<longrightarrow> searchAndHighlight h term wholeWord w = (w, 0))
    \<and> (length term > 3 \<longrightarrow>
          searchAndHighlight h term wholeWord w = mark_in_batches h items w
          \<and> concat (chunks 60 (rev items)) = rev items
          \<and> ((\<forall>b c rs. sync_inserts h b c rs) \<longrightarrow>
               searchAndHighlight h term wholeWord w = (commit (rev items) w, length items)))"
proof -
  have cap: "length term \<le> 3 \<and> length items > 250 \<longrightarrow> searchAndHighlight h term wholeWord w = (w, 0)"
    by (simp add: searchAndHighlight_def assms PRONOUN_HIT_CAP_def)
  have long: "searchAndHighlight h term wholeWord w = mark_in_batches h items w" if "length term > 3"
    unfolding assms using that by (intro searchAndHighlight_batches) simp
  have all: "searchAndHighlight h term wholeWord w = (commit (rev items) w, length items)"
    if "length term > 3" "\<forall>b c rs. sync_inserts h b c rs"
  proof -
    have "\<And>b c rs. sync_inserts h b c rs = (\<forall>r\<in>set rs. (\<lambda>_. True) r)"
      using that(2) by simp
    from mark_in_batches_valid[of h "\<lambda>_. True", OF this] long[OF that(1)]
    show ?thesis by simp
  qed
  from cap long all show ?thesis by (simp add: concat_chunks)
qed

theorem noise_cap_witness:
  "searchAndHighlight
     \<lparr>body_search = (\<lambda>b c t opts. [0 ..< 300]), sync_inserts = (\<lambda>b c rs. True),
      save_async = (\<lambda>ps sel. True)\<rparr>
     (js ''it'') True
     \<lparr>body = (), contentControls = [], stored_parties = None, stored_selected = None\<rparr>
   = (\<lparr>body = (), contentControls = [], stored_parties = None, stored_selected = None\<rparr>, 0)
   \<and> searchAndHighlight
     \<lparr>body_search = (\<lambda>b c t opts. [0 ..< 300]), sync_inserts = (\<lambda>b c rs. True),
      save_async = (\<lambda>ps sel. True)\<rparr>
     (js ''Acmes'') True
     \<lparr>body = (), contentControls = [], stored_parties = None, stored_selected = None\<rparr>
   = (\<lparr>body = (), contentControls = map insertContentControl (rev [0 ..< 300]),
       stored_parties = None, stored_selected = None\<rparr>, 300)"
proof -
  let ?h = "\<lparr>body_search = (\<lambda>b c t opts. [0 ..< 300]), sync_inserts = (\<lambda>b c rs. True),
             save_async = (\<lambda>ps sel. True)\<rparr> :: (unit, nat) host"
  let ?w = "\<lparr>body = (), contentControls = [], stored_parties = None, stored_selected = None\<rparr>
             :: (unit, nat) world"
  have short: "length (js ''it'') \<le> 3 \<and> length [0 ..< 300] > 250" by simp
  have long: "length (js ''Acmes'') > 3" by simp
  have acc: "\<forall>b c rs. sync_inserts ?h b c rs" by simp
  have i1: "[0 ..< 300] = body_search ?h (body ?w) (contentControls ?w) (js ''it'')
              (searchOptions (js ''it'') True)" by simp
  have i2: "[0 ..< 300] = body_search ?h (body ?w) (contentControls ?w) (js ''Acmes'')
              (searchOptions (js ''Acmes'') True)" by simp
  have 1: "searchAndHighlight ?h (js ''it'') True ?w = (?w, 0)"
    using noise_cap[OF i1] short by blast
  have 2: "searchAndHighlight ?h (js ''Acmes'') True ?w = (commit (rev [0 ..< 300]) ?w, length [0 ..< 300])"
    using noise_cap[OF i2] long acc by blast
  from 1 2 show ?thesis by (simp add: commit_def)
qed

text \<open>
  C4. Unless the noise cap applies, the index loop of \<open>searchAndHighlight\<close> is the run of
  \<open>mark_batch\<close> over the matches in reverse order cut into batches of at most 60: a batch
  whose commit succeeds is annotated and counted as a whole, a batch whose commit fails
  is retried range by range by \<open>per_item\<close>, which passes over a failing range and goes on.
  The ranges annotated are a subsequence of the reversed matches and the number returned
  is their number. On a host where a commit fails exactly when it holds an invalid range,
  the valid ranges are annotated, all of them, and the count is their number.
\<close>

theorem batch_fallback:
  assumes "items = body_search h (body w) (contentControls w) term (searchOptions term wholeWord)"
    and "\<not> (length items > 250 \<and> length term \<le> 3)"
  shows "searchAndHighlight h term wholeWord w = foldl (mark_batch h) (w, 0) (chunks 60 (rev items))
    \<and> concat (chunks 60 (rev items)) = rev items
    \<and> (\<forall>b \<in> set (chunks 60 (rev items)). b \<noteq> [] \<and> length b \<le> 60)
    \<and> (\<forall>w' applied slice. mark_batch h (w', applied) slice =
          (if sync_inserts h (body w') (contentControls w') slice
           then (commit slice w', applied + length slice)
           else per_item h slice w' applied))
    \<and> (\<exists>rs. subseq rs (rev items) \<and> searchAndHighlight h term wholeWord w = (commit rs w, length rs))
    \<and> ((\<forall>b c rs. sync_inserts h b c rs = (\<forall>r\<in>set rs. valid r)) \<longrightarrow>
          searchAndHighlight h term wholeWord w
            = (commit (filter valid (rev items)) w, length (filter valid items)))"
proof -
  have eq: "searchAndHighlight h term wholeWord w = mark_in_batches h items w"
    unfolding assms(1) using assms(2)
    by (intro searchAndHighlight_batches) (simp add: assms(1) PRONOUN_HIT_CAP_def)
  have sub: "\<exists>rs. subseq rs (rev items) \<and> searchAndHighlight h term wholeWord w = (commit rs w, length rs)"
    using foldl_mark_batch_commits[of "chunks 60 (rev items)" h w 0]
    by (simp add: eq mark_in_batches_def concat_chunks)
  have val: "searchAndHighlight h term wholeWord w
            = (commit (filter valid (rev items)) w, length (filter valid items))"
    if "\<forall>b c rs. sync_inserts h b c rs = (\<forall>r\<in>set rs. valid r)"
    using mark_in_batches_valid[of h valid items w] that by (simp add: eq)
  from eq sub val show ?thesis
    by (auto simp: mark_in_batches_def concat_chunks mark_batch_pair dest: chunks_bounded)
qed

theorem batch_fallback_witness:
  "searchAndHighlight
     \<lparr>body_search = (\<lambda>b c t opts. [0 ..< 60]), sync_inserts = (\<lambda>b c rs. 17 \<notin> set rs),
      save_async = (\<lambda>ps sel. True)\<rparr>
     (js ''Acme'') True
     \<lparr>body = (), contentControls = [], stored_parties = None, stored_selected = None\<rparr>
   = (\<lparr>body = (), contentControls = map insertContentControl (filter (\<lambda>r. r \<noteq> 17) (rev [0 ..< 60])),
       stored_parties = None, stored_selected = None\<rparr>, 59)"
proof -
  let ?h = "\<lparr>body_search = (\<lambda>b c t opts. [0 ..< 60]), sync_inserts = (\<lambda>b c rs. 17 \<notin> set rs),
             save_async = (\<lambda>ps sel. True)\<rparr> :: (unit, nat) host"
  let ?w = "\<lparr>body = (), contentControls = [], stored_parties = None, stored_selected = None\<rparr>
             :: (unit, nat) world"
  have "[0 ..< 60] = [0 ..< 17] @ [17 ..< 60]"
    using upt_add_eq_append[of 0 17 43] by simp
  also have "[17 ..< 60] = 17 # [18 ..< 60]"
    by (simp add: upt_conv_Cons)
  finally have n: "length (filter (\<lambda>r. r \<noteq> 17) [0 ..< 60]) = 59"
    by simp
  have i: "[0 ..< 60] = body_search ?h (body ?w) (contentControls ?w) (js ''Acme'')
              (searchOptions (js ''Acme'') True)" by simp
  have c: "\<not> (length [0 ..< 60] > 250 \<and> length (js ''Acme'') \<le> 3)" by simp
  have v: "\<forall>b c rs. sync_inserts ?h b c rs = (\<forall>r\<in>set rs. r \<noteq> 17)" by auto
  have "searchAndHighlight ?h (js ''Acme'') True ?w
      = (commit (filter (\<lambda>r. r \<noteq> 17) (rev [0 ..< 60])) ?w, length (filter (\<lambda>r. r \<noteq> 17) [0 ..< 60]))"
    using batch_fallback[OF i c, of "\<lambda>r. r \<noteq> 17"] v by blast
  then show ?thesis by (simp only: n) (simp add: commit_def)
qed

subsection \<open>Party detection\<close>

lemmas det_eval = normalizeSpaces_def scrubName_def
  stripQuotes_def extractRole_def findOrgNames_def replace_all_def replace_first_def split_def
  rx_recital_def rx_role_def role_words_def org_suffixes_def rx_org_name_def punct_or_ws_def
  grp_def group_def trim_def is_ws_def is_dot_def rx_eval in_range_def org_char_def dedupe_def set_add_def
  titleCase_def equalName_def recital_captures_def
  replace_from.simps split_from.simps

lemma length_push_scrubbed: "length (push_scrubbed ct c x) \<le> Suc (length c)"
  by (simp add: push_scrubbed_def Let_def)

lemma recital_candidates:
  "recital_captures t = Some (c1, c2) \<Longrightarrow>
   recital ct t = (if scrubName c1 \<noteq> [] then [extractRole ct (scrubName c1)] else [])
                  @ (if scrubName c2 \<noteq> [] then [extractRole ct (scrubName c2)] else [])"
  by (simp add: recital_def push_scrubbed_def Let_def)

lemma length_recital: "length (recital ct t) \<le> 2"
proof (cases "recital_captures t")
  case None
  then show ?thesis by (simp add: recital_def)
next
  case (Some cs)
  obtain c1 c2 where cs: "cs = (c1, c2)" by (cases cs)
  have "length (push_scrubbed ct (push_scrubbed ct [] c1) c2) \<le> Suc (length (push_scrubbed ct [] c1))"
    by (rule length_push_scrubbed)
  also have "\<dots> \<le> Suc (Suc 0)"
    using length_push_scrubbed[of ct "[]" c1] by simp
  finally show ?thesis using Some cs by (simp add: recital_def)
qed

lemma length_fallback: "length c < 2 \<Longrightarrow> length (fallback ct c orgs) \<le> 2"
  by (induction orgs arbitrary: c) (auto simp: Let_def)

lemma fallback_adds:
  "\<exists>rest. fallback ct c orgs = c @ rest \<and> set rest \<subseteq> extractRole ct ` set orgs"
proof (induction orgs arbitrary: c)
  case Nil
  show ?case by simp
next
  case (Cons org orgs)
  from Cons[of c] obtain r1 where
    r1: "fallback ct c orgs = c @ r1" "set r1 \<subseteq> extractRole ct ` set orgs" by blast
  from Cons[of "c @ [extractRole ct org]"] obtain r2 where
    r2: "fallback ct (c @ [extractRole ct org]) orgs = (c @ [extractRole ct org]) @ r2"
        "set r2 \<subseteq> extractRole ct ` set orgs" by blast
  let ?c' = "(if find (\<lambda>p. equalName ct (name p) org) c = None then c @ [extractRole ct org] else c)"
  consider (stop_new) "find (\<lambda>p. equalName ct (name p) org) c = None" "length (c @ [extractRole ct org]) \<ge> 2"
    | (go_new) "find (\<lambda>p. equalName ct (name p) org) c = None" "\<not> length (c @ [extractRole ct org]) \<ge> 2"
    | (stop_old) "find (\<lambda>p. equalName ct (name p) org) c \<noteq> None" "length c \<ge> 2"
    | (go_old) "find (\<lambda>p. equalName ct (name p) org) c \<noteq> None" "\<not> length c \<ge> 2"
    by blast
  then show ?case
  proof cases
    case stop_new
    then have "fallback ct c (org # orgs) = c @ [extractRole ct org]
        \<and> set [extractRole ct org] \<subseteq> extractRole ct ` set (org # orgs)" by simp
    then show ?thesis by blast
  next
    case go_new
    with r2 have "fallback ct c (org # orgs) = c @ (extractRole ct org # r2)
        \<and> set (extractRole ct org # r2) \<subseteq> extractRole ct ` set (org # orgs)" by auto
    then show ?thesis by blast
  next
    case stop_old
    then have "fallback ct c (org # orgs) = c @ []
        \<and> set [] \<subseteq> extractRole ct ` set (org # orgs)" by simp
    then show ?thesis by blast
  next
    case go_old
    with r1 have "fallback ct c (org # orgs) = c @ r1
        \<and> set r1 \<subseteq> extractRole ct ` set (org # orgs)" by auto
    then show ?thesis by blast
  qed
qed

lemma length_dedupe_loop: "length (dedupe_loop ct seen out arr) \<le> length out + length arr"
proof (induction arr arbitrary: seen out)
  case Nil
  show ?case by simp
next
  case (Cons p arr)
  from Cons[of "set_add seen (party_key ct p)" "out @ [p]"] Cons[of seen out]
  show ?case by (auto simp: Let_def)
qed

lemma detectParties_untruncated:
  "detectParties ct text =
     (if length (recital ct (normalizeSpaces text)) < 2
      then fallback ct (recital ct (normalizeSpaces text)) (findOrgNames (normalizeSpaces text))
      else recital ct (normalizeSpaces text))"
  using length_recital[of ct "normalizeSpaces text"]
    length_fallback[of "recital ct (normalizeSpaces text)" ct "findOrgNames (normalizeSpaces text)"]
  by (auto simp: detectParties_def Let_def)

lemma length_detectParties: "length (detectParties ct text) \<le> 2"
  unfolding detectParties_untruncated
  using length_recital[of ct "normalizeSpaces text"]
    length_fallback[of "recital ct (normalizeSpaces text)" ct "findOrgNames (normalizeSpaces text)"]
  by auto

lemma length_detected: "length (detected ct text) \<le> 2"
proof -
  have "length (detected ct text)
      \<le> length (filter (\<lambda>p. \<not> rx_test True STOPWORDS (trim (name p))) (detectParties ct text))"
    unfolding detected_def dedupeParties_def
    using length_dedupe_loop[of ct "[]" "[]"] by simp
  also have "\<dots> \<le> length (detectParties ct text)" by simp
  finally show ?thesis using length_detectParties[of ct "text"] by simp
qed

lemma Bob_normal: "normalizeSpaces (js ''between -- and Bob.'') = js ''between -- and Bob.''"
  by (simp add: det_eval)
lemma Bob_captures: "recital_captures (js ''between -- and Bob.'') = Some (js ''--'', js ''Bob'')"
  by (simp add: det_eval)
lemma scrub_dashes: "scrubName (js ''--'') = []"
  by (simp add: det_eval)
lemma scrub_Bob: "scrubName (js ''Bob'') = js ''Bob''"
  by (simp add: det_eval)
lemma role_Bob: "extractRole ct (js ''Bob'') = \<lparr>name = js ''Bob'', role = None\<rparr>"
  by (simp add: det_eval)
lemma orgs_Bob: "findOrgNames (js ''between -- and Bob.'') = []"
  by (simp add: det_eval)
lemma detect_Bob: "detectParties ct (js ''between -- and Bob.'') = [\<lparr>name = js ''Bob'', role = None\<rparr>]"
  unfolding detectParties_untruncated Bob_normal
  by (simp add: recital_def Bob_captures[simplified] push_scrubbed_def scrub_dashes[simplified]
      scrub_Bob[simplified] role_Bob[simplified] orgs_Bob[simplified])

lemma AD_normal: "normalizeSpaces (js ''between Acme and --.'') = js ''between Acme and --.''"
  by (simp add: det_eval)
lemma AD_captures: "recital_captures (js ''between Acme and --.'') = Some (js ''Acme'', js ''--'')"
  by (simp add: det_eval)
lemma orgs_AD: "findOrgNames (js ''between Acme and --.'') = []"
  by (simp add: det_eval)

lemma AB_normal: "normalizeSpaces (js ''between Acme and Bob.'') = js ''between Acme and Bob.''"
  by (simp add: det_eval)
lemma AB_captures: "recital_captures (js ''between Acme and Bob.'') = Some (js ''Acme'', js ''Bob'')"
  by (simp add: det_eval)
lemma scrub_Acme: "scrubName (js ''Acme'') = js ''Acme''"
  by (simp add: det_eval)
lemma role_Acme: "extractRole ct (js ''Acme'') = \<lparr>name = js ''Acme'', role = None\<rparr>"
  by (simp add: det_eval)
lemma detect_AB: "detectParties ct (js ''between Acme and Bob.'')
    = [\<lparr>name = js ''Acme'', role = None\<rparr>, \<lparr>name = js ''Bob'', role = None\<rparr>]"
  unfolding detectParties_untruncated AB_normal
  by (simp add: recital_def AB_captures[simplified] push_scrubbed_def scrub_Acme[simplified]
      scrub_Bob[simplified] role_Bob[simplified] role_Acme[simplified])
lemma detected_AB:
  assumes "ascii_faithful ct"
  shows "detected ct (js ''between Acme and Bob.'')
    = [\<lparr>name = js ''Acme'', role = None\<rparr>, \<lparr>name = js ''Bob'', role = None\<rparr>]"
  unfolding detected_def detect_AB
  by (simp add: dedupeParties_def set_add_def STOPWORDS_def rx_eval trim_def is_ws_def
      ascii_toLowerCase[OF assms] ascii_eval)
lemma add_Gamma:
  assumes "ascii_faithful ct"
  shows "addParty ct (Some [\<lparr>name = js ''Acme'', role = None\<rparr>, \<lparr>name = js ''Bob'', role = None\<rparr>]) (js '' Gamma'')
   = Some [\<lparr>name = js ''Acme'', role = None\<rparr>, \<lparr>name = js ''Bob'', role = None\<rparr>, \<lparr>name = js ''Gamma'', role = None\<rparr>]"
  by (simp add: addParty_def dedupeParties_def set_add_def trim_def is_ws_def
      ascii_toLowerCase[OF assms] ascii_eval)

text \<open>
  C1, as the specification states it, fails: on the text \<open>between -- and Bob.\<close> the recital
  pattern matches with the captures \<open>--\<close> and \<open>Bob\<close>, the first capture scrubs to the empty
  string, and \<open>detectParties\<close> returns the one party \<open>Bob\<close>: no party with an empty name is
  pushed for the first capture. (No case mapping is applied on this text, so the result
  is the same for every engine; it is stated for \<open>ascii_tables\<close>.)
\<close>

theorem recital_empty_capture_counterexample:
  "recital_captures (normalizeSpaces (js ''between -- and Bob.'')) = Some (js ''--'', js ''Bob'')
   \<and> scrubName (js ''--'') = []
   \<and> detectParties ascii_tables (js ''between -- and Bob.'') = [\<lparr>name = js ''Bob'', role = None\<rparr>]"
  unfolding Bob_normal using Bob_captures scrub_dashes detect_Bob[of ascii_tables] by blast

text \<open>
  C1, amended. When the recital pattern matches, each capture is scrubbed, and a candidate
  is pushed for it (the result of \<open>extractRole\<close> on the scrubbed text) exactly when the
  scrubbed text is non-empty; a capture that scrubs to the empty string is skipped and no
  party is pushed for it. The candidates \<open>cands\<close> of the recital heuristic are exactly
  these, in the order of the captures. The result of \<open>detectParties\<close> is \<open>cands\<close> when both
  were pushed, and otherwise \<open>cands\<close> followed by what the organisation fallback adds:
  parties extracted from the organisation names found in the text, up to 2 in all.
\<close>

theorem recital_pushes_nonempty:
  assumes "recital_captures (normalizeSpaces text) = Some (c1, c2)"
    and "cands = (if scrubName c1 \<noteq> [] then [extractRole ct (scrubName c1)] else [])
                 @ (if scrubName c2 \<noteq> [] then [extractRole ct (scrubName c2)] else [])"
  shows "recital ct (normalizeSpaces text) = cands
    \<and> detectParties ct text =
        (if length cands < 2 then fallback ct cands (findOrgNames (normalizeSpaces text)) else cands)
    \<and> (\<exists>rest. detectParties ct text = cands @ rest
          \<and> set rest \<subseteq> extractRole ct ` set (findOrgNames (normalizeSpaces text))
          \<and> length (cands @ rest) \<le> 2
          \<and> (scrubName c1 \<noteq> [] \<and> scrubName c2 \<noteq> [] \<longrightarrow> rest = []))"
proof -
  have r: "recital ct (normalizeSpaces text) = cands"
    unfolding assms(2) by (rule recital_candidates[OF assms(1)])
  have d: "detectParties ct text =
        (if length cands < 2 then fallback ct cands (findOrgNames (normalizeSpaces text)) else cands)"
    unfolding detectParties_untruncated r ..
  from fallback_adds[of ct cands "findOrgNames (normalizeSpaces text)"] obtain rest where
    f: "fallback ct cands (findOrgNames (normalizeSpaces text)) = cands @ rest"
       "set rest \<subseteq> extractRole ct ` set (findOrgNames (normalizeSpaces text))" by blast
  have l: "length (detectParties ct text) \<le> 2" by (rule length_detectParties)
  have e: "\<exists>rest. detectParties ct text = cands @ rest
          \<and> set rest \<subseteq> extractRole ct ` set (findOrgNames (normalizeSpaces text))
          \<and> length (cands @ rest) \<le> 2
          \<and> (scrubName c1 \<noteq> [] \<and> scrubName c2 \<noteq> [] \<longrightarrow> rest = [])"
  proof (cases "length cands < 2")
    case True
    have n: "\<not> (scrubName c1 \<noteq> [] \<and> scrubName c2 \<noteq> [])"
      using True by (auto simp: assms(2) split: if_splits)
    from True d f(1) have "detectParties ct text = cands @ rest" by simp
    with f(2) l n show ?thesis by (intro exI[of _ rest]) auto
  next
    case False
    with d have "detectParties ct text = cands @ []" by simp
    with l show ?thesis by (intro exI[of _ "[]"]) auto
  qed
  from r d e show ?thesis by blast
qed

theorem recital_pushes_nonempty_witness:
  "recital_captures (normalizeSpaces (js ''between Acme and --.'')) = Some (js ''Acme'', js ''--'')
   \<and> scrubName (js ''Acme'') \<noteq> [] \<and> scrubName (js ''--'') = []
   \<and> recital ascii_tables (normalizeSpaces (js ''between Acme and --.''))
       = [\<lparr>name = js ''Acme'', role = None\<rparr>]
   \<and> detectParties ascii_tables (js ''between Acme and --.'') = [\<lparr>name = js ''Acme'', role = None\<rparr>]"
proof -
  have c: "recital_captures (normalizeSpaces (js ''between Acme and --.'')) = Some (js ''Acme'', js ''--'')"
    unfolding AD_normal by (rule AD_captures)
  have k: "[\<lparr>name = js ''Acme'', role = None\<rparr>]
      = (if scrubName (js ''Acme'') \<noteq> [] then [extractRole ascii_tables (scrubName (js ''Acme''))] else [])
        @ (if scrubName (js ''--'') \<noteq> [] then [extractRole ascii_tables (scrubName (js ''--''))] else [])"
    unfolding scrub_Acme scrub_dashes role_Acme by simp
  note t = recital_pushes_nonempty[OF c k]
  have s: "scrubName (js ''Acme'') \<noteq> [] \<and> scrubName (js ''--'') = []"
    unfolding scrub_Acme scrub_dashes by simp
  have f: "(if length [\<lparr>name = js ''Acme'', role = None\<rparr>] < 2
            then fallback ascii_tables [\<lparr>name = js ''Acme'', role = None\<rparr>]
                   (findOrgNames (normalizeSpaces (js ''between Acme and --.'')))
            else [\<lparr>name = js ''Acme'', role = None\<rparr>]) = [\<lparr>name = js ''Acme'', role = None\<rparr>]"
    unfolding AD_normal orgs_AD by simp
  from t have "detectParties ascii_tables (js ''between Acme and --.'')
      = (if length [\<lparr>name = js ''Acme'', role = None\<rparr>] < 2
            then fallback ascii_tables [\<lparr>name = js ''Acme'', role = None\<rparr>]
                   (findOrgNames (normalizeSpaces (js ''between Acme and --.'')))
            else [\<lparr>name = js ''Acme'', role = None\<rparr>])"
    by blast
  then have d: "detectParties ascii_tables (js ''between Acme and --.'') = [\<lparr>name = js ''Acme'', role = None\<rparr>]"
    unfolding f .
  from t have "recital ascii_tables (normalizeSpaces (js ''between Acme and --.''))
       = [\<lparr>name = js ''Acme'', role = None\<rparr>]" by blast
  with c s d show ?thesis by blast
qed

text \<open>
  C10. For every text \<open>detectParties\<close> returns at most 2 parties: the recital heuristic
  gives at most two candidates, the fallback runs only on fewer than 2 candidates and
  never goes beyond 2, so the truncation to 5 removes nothing. The list that detection
  saves, after the stopword filter and the de-duplication, has at most 2 parties as well.
  This holds whatever the case tables of the engine are.
\<close>

theorem detectParties_at_most_two:
  "length (detectParties ct text) \<le> 2
   \<and> length (recital ct (normalizeSpaces text)) \<le> 2
   \<and> (length c < 2 \<longrightarrow> length (fallback ct c orgs) \<le> 2)
   \<and> detectParties ct text =
       (if length (recital ct (normalizeSpaces text)) < 2
        then fallback ct (recital ct (normalizeSpaces text)) (findOrgNames (normalizeSpaces text))
        else recital ct (normalizeSpaces text))
   \<and> length (detected ct text) \<le> 2"
  using length_detectParties[of ct "text"] length_recital[of ct "normalizeSpaces text"]
    length_fallback[of c ct orgs] detectParties_untruncated[of ct "text"] length_detected[of ct "text"]
  by blast

theorem detectParties_at_most_two_witness:
  "length (detectParties ascii_tables (js ''between Acme and Bob.'')) \<le> 2
   \<and> length ([] :: Party list) < 2 \<and> length (fallback ascii_tables [] [js ''Acme Inc'']) \<le> 2
   \<and> detected ascii_tables (js ''between Acme and Bob.'')
       = [\<lparr>name = js ''Acme'', role = None\<rparr>, \<lparr>name = js ''Bob'', role = None\<rparr>]
   \<and> addParty ascii_tables (Some (detected ascii_tables (js ''between Acme and Bob.''))) (js '' Gamma'')
       = Some [\<lparr>name = js ''Acme'', role = None\<rparr>, \<lparr>name = js ''Bob'', role = None\<rparr>,
               \<lparr>name = js ''Gamma'', role = None\<rparr>]"
proof -
  have e: "length ([] :: Party list) < 2" by simp
  note dab = detected_AB[OF ascii_faithful_tables]
  have a: "addParty ascii_tables (Some (detected ascii_tables (js ''between Acme and Bob.''))) (js '' Gamma'')
       = Some [\<lparr>name = js ''Acme'', role = None\<rparr>, \<lparr>name = js ''Bob'', role = None\<rparr>,
               \<lparr>name = js ''Gamma'', role = None\<rparr>]"
    unfolding dab by (rule add_Gamma[OF ascii_faithful_tables])
  from e a dab
    detectParties_at_most_two[of ascii_tables "js ''between Acme and Bob.''" "[]" "[js ''Acme Inc'']"]
  show ?thesis by blast
qed

subsection \<open>Highlighting a party\<close>






lemma commit_fields [simp]:
  "body (commit rs w) = body w" "stored_parties (commit rs w) = stored_parties w"
  "stored_selected (commit rs w) = stored_selected w"
  by (simp_all add: commit_def)

lemma clear_fields [simp]:
  "body (clearPartyHighlights w) = body w" "stored_parties (clearPartyHighlights w) = stored_parties w"
  "stored_selected (clearPartyHighlights w) = stored_selected w"
  by (simp_all add: clearPartyHighlights_def)

lemma clear_no_tag:
  "filter (\<lambda>cc. cc_tag cc = TAG) (contentControls (clearPartyHighlights w)) = []"
  by (simp add: clearPartyHighlights_def)





lemma insertContentControl_inj: "map insertContentControl rs = map insertContentControl rs' \<longleftrightarrow> rs = rs'"
  by (rule inj_map_eq_map) (auto simp: inj_on_def insertContentControl_def)
















subsection \<open>The patterns of the term generator\<close>

lemma match_at_None: "match_at ci r pre post = None \<longleftrightarrow> rx_ends ci r (pre, post, []) = []"
  by (auto simp: match_at_def split: list.splits)

lemma rx_search_None:
  "rx_search ci r pre post = None \<longleftrightarrow> (\<forall>u v. post = u @ v \<longrightarrow> rx_ends ci r (rev u @ pre, v, []) = [])"
proof (induction post arbitrary: pre)
  case Nil
  then show ?case by (simp add: match_at_None)
next
  case (Cons c cs)
  have split: "(\<forall>u v. c # cs = u @ v \<longrightarrow> Q u v) \<longleftrightarrow> Q [] (c # cs) \<and> (\<forall>u v. cs = u @ v \<longrightarrow> Q (c # u) v)" for Q
    by (auto simp: Cons_eq_append_conv)
  have "rx_search ci r pre (c # cs) = None \<longleftrightarrow>
      match_at ci r pre (c # cs) = None \<and> rx_search ci r (c # pre) cs = None"
    by (simp split: option.splits)
  also have "\<dots> \<longleftrightarrow> rx_ends ci r (pre, c # cs, []) = []
      \<and> (\<forall>u v. cs = u @ v \<longrightarrow> rx_ends ci r (rev u @ c # pre, v, []) = [])"
    by (simp only: match_at_None Cons)
  also have "\<dots> \<longleftrightarrow> (\<forall>u v. c # cs = u @ v \<longrightarrow> rx_ends ci r (rev u @ pre, v, []) = [])"
    by (subst split) simp
  finally show ?case .
qed

lemma rx_test_iff:
  "rx_test ci r s \<longleftrightarrow> (\<exists>u v. s = u @ v \<and> rx_ends ci r (rev u, v, []) \<noteq> [])"
  using rx_search_None[of ci r "[]" s] by (auto simp: rx_test_def rx_exec_def)

lemma rx_ends_Seq_nonempty:
  "rx_ends ci (Seq a b) s \<noteq> [] \<longleftrightarrow> (\<exists>s'\<in>set (rx_ends ci a s). rx_ends ci b s' \<noteq> [])"
  by auto

lemma set_rx_ends_Rep:
  "set (rx_ends ci (Rep P lo hi g) (pre, post, caps)) =
     (\<lambda>k. (rev (take k post) @ pre, drop k post, caps)) `
       {k. lo \<le> k \<and> k \<le> (case hi of None \<Rightarrow> length (takeWhile P post) | Some h \<Rightarrow> min h (length (takeWhile P post)))}"
  by (auto simp: Let_def)

lemma possessive_tail:
  "rx_ends False (Seq (Opt (Lit [115])) Eol) (p, q, c) \<noteq> [] \<longleftrightarrow> q = [] \<or> q = [115]"
  by (cases q) (auto simp: canon_def)

lemma possessive_here:
  "rx_ends False rx_possessive (pre, v, []) \<noteq> [] \<longleftrightarrow>
     (\<exists>v1 k. v = APOS # v1 \<and> k \<le> length (takeWhile is_ws v1) \<and> (drop k v1 = [] \<or> drop k v1 = [115]))"
proof (cases v)
  case Nil
  then show ?thesis by (simp add: rx_possessive_def)
next
  case (Cons a v1)
  have "rx_ends False rx_possessive (pre, a # v1, []) \<noteq> [] \<longleftrightarrow>
     a = APOS \<and> (\<exists>k. k \<le> length (takeWhile is_ws v1) \<and> (drop k v1 = [] \<or> drop k v1 = [115]))"
    unfolding rx_possessive_def seqs.simps
    apply (subst rx_ends_Seq_nonempty)
    apply (subst rx_ends_Seq_nonempty)
    apply (simp add: set_rx_ends_Rep possessive_tail canon_def del: rx_ends.simps(3) rx_ends.simps(6))
    done
  with Cons show ?thesis by auto
qed

lemma isPossessive_iff:
  "isPossessive term \<longleftrightarrow>
     (\<exists>p ws. term = p @ [APOS] @ ws \<and> (\<forall>c\<in>set ws. is_ws c))
     \<or> (\<exists>p ws. term = p @ [APOS] @ ws @ [115] \<and> (\<forall>c\<in>set ws. is_ws c))"
  (is "?l \<longleftrightarrow> ?r")
proof
  assume ?l
  then obtain u v1 k where t: "term = u @ APOS # v1" and k: "k \<le> length (takeWhile is_ws v1)"
    and d: "drop k v1 = [] \<or> drop k v1 = [115]"
    unfolding isPossessive_def rx_test_iff possessive_here by blast
  have "take k v1 = take k (takeWhile is_ws v1)"
    using k by (metis takeWhile_dropWhile_id take_append diff_is_0_eq' take_0 append_Nil2)
  then have ws: "\<forall>c\<in>set (take k v1). is_ws c"
    by (metis in_set_takeD set_takeWhileD)
  have v1: "v1 = take k v1 @ drop k v1" by simp
  from d show ?r
  proof
    assume "drop k v1 = []"
    with v1 have "term = u @ [APOS] @ take k v1" using t by simp
    with ws show ?r by blast
  next
    assume "drop k v1 = [115]"
    with v1 have "term = u @ [APOS] @ take k v1 @ [115]" using t by (metis append_Cons append_Nil)
    with ws show ?r by blast
  qed
next
  assume ?r
  then have "\<exists>p ws z. term = p @ APOS # (ws @ z) \<and> (\<forall>c\<in>set ws. is_ws c) \<and> (z = [] \<or> z = [115])"
  proof (elim disjE exE conjE)
    fix p ws assume "term = p @ [APOS] @ ws" "\<forall>c\<in>set ws. is_ws c"
    then have "term = p @ APOS # (ws @ []) \<and> (\<forall>c\<in>set ws. is_ws c) \<and> ([] = [] \<or> [] = [115::nat])"
      by simp
    then show ?thesis by blast
  next
    fix p ws assume "term = p @ [APOS] @ ws @ [115]" "\<forall>c\<in>set ws. is_ws c"
    then have "term = p @ APOS # (ws @ [115]) \<and> (\<forall>c\<in>set ws. is_ws c) \<and> ([115] = [] \<or> [115] = [115::nat])"
      by simp
    then show ?thesis by blast
  qed
  then obtain p ws z where t: "term = p @ APOS # (ws @ z)" and ws: "\<forall>c\<in>set ws. is_ws c"
    and z: "z = [] \<or> z = [115]"
    by blast
  have "length ws \<le> length (takeWhile is_ws (ws @ z))"
    using ws by (simp add: takeWhile_append2)
  moreover have "drop (length ws) (ws @ z) = z" by simp
  ultimately have "rx_ends False rx_possessive (rev p, APOS # (ws @ z), []) \<noteq> []"
    unfolding possessive_here using z by blast
  with t show ?l unfolding isPossessive_def rx_test_iff by blast
qed

lemma boundary_after_word:
  "is_word a \<Longrightarrow> at_word_boundary (a # pre) v \<longleftrightarrow> v = [] \<or> \<not> is_word (hd v)"
  by (cases v) (simp_all add: at_word_boundary_def)

lemma final_s_here:
  "rx_ends True rx_final_s (pre, v, []) \<noteq> [] \<longleftrightarrow>
     (\<exists>c d v'. v = c # d # v' \<and> c \<noteq> APOS \<and> (d = 115 \<or> d = 83) \<and> (v' = [] \<or> \<not> is_word (hd v')))"
proof (cases v)
  case Nil
  then show ?thesis by (simp add: rx_final_s_def)
next
  case c: (Cons c t)
  show ?thesis
  proof (cases t)
    case Nil
    with c show ?thesis by (simp add: rx_final_s_def one_of_def)
  next
    case (Cons d v')
    have u: "upper_cu 115 = 83" by (simp add: upper_cu_def)
    have s: "upper_cu d = 83 \<longleftrightarrow> d = 115 \<or> d = 83"
      by (auto simp: upper_cu_def)
    have w: "d = 115 \<or> d = 83 \<Longrightarrow> is_word d"
      by (auto simp: is_word_def)
    have e: "rx_ends True rx_final_s (pre, c # d # v', []) \<noteq> [] \<longleftrightarrow>
        c \<noteq> APOS \<and> upper_cu d = 83 \<and> at_word_boundary (d # c # pre) v'"
      by (simp add: rx_final_s_def one_of_def canon_def u)
    have "rx_ends True rx_final_s (pre, c # d # v', []) \<noteq> [] \<longleftrightarrow>
        c \<noteq> APOS \<and> (d = 115 \<or> d = 83) \<and> (v' = [] \<or> \<not> is_word (hd v'))"
      unfolding e s using w boundary_after_word[of d "c # pre" v'] by blast
    then show ?thesis unfolding c Cons by simp
  qed
qed

lemma final_s_iff:
  "rx_test True rx_final_s nm \<longleftrightarrow>
     (\<exists>u c d v. nm = u @ c # d # v \<and> c \<noteq> APOS \<and> (d = 115 \<or> d = 83) \<and> (v = [] \<or> \<not> is_word (hd v)))"
  unfolding rx_test_iff final_s_here by blast

lemma canon_True: "canon True = upper_cu"
  by (rule ext) (simp add: canon_def)

lemma grp_boundary:
  "(\<exists>s'\<in>set (rx_ends ci (Grp n a) (pre, v, caps)). rx_ends ci WordB s' \<noteq> [])
     \<longleftrightarrow> (\<exists>s'\<in>set (rx_ends ci a (pre, v, caps)). at_word_boundary (fst s') (fst (snd s')))"
  by (auto split: if_splits) force+

lemma ci_eq_cu:
  "97 \<le> l \<and> l \<le> 122 \<Longrightarrow> upper_cu c = upper_cu l \<longleftrightarrow> lower_cu c = l"
  by (auto simp: upper_cu_def lower_cu_def)

lemma ci_eq:
  "\<forall>l\<in>set w. 97 \<le> l \<and> l \<le> 122 \<Longrightarrow> map upper_cu x = map upper_cu w \<longleftrightarrow> map lower_cu x = w"
proof (induction x arbitrary: w)
  case Nil
  then show ?case by auto
next
  case (Cons c x)
  then show ?case by (cases w) (auto simp: ci_eq_cu)
qed

lemma lower_is_word: "97 \<le> l \<and> l \<le> 122 \<Longrightarrow> lower_cu c = l \<Longrightarrow> is_word c"
  by (auto simp: lower_cu_def is_word_def split: if_splits)

lemma lit_then_boundary:
  assumes "w \<noteq> []" "\<forall>l\<in>set w. 97 \<le> l \<and> l \<le> 122"
  shows "(\<exists>s'\<in>set (rx_ends True (Lit w) (pre, v, caps)). at_word_boundary (fst s') (fst (snd s')))
     \<longleftrightarrow> (\<exists>x v'. v = x @ v' \<and> ascii_lower x = w \<and> (v' = [] \<or> \<not> is_word (hd v')))"
  (is "?l \<longleftrightarrow> ?r")
proof -
  let ?n = "length w"
  have bd: "at_word_boundary (rev x @ pre) v' \<longleftrightarrow> v' = [] \<or> \<not> is_word (hd v')"
    if "map lower_cu x = w" for x v'
  proof -
    from that assms(1) have "x \<noteq> []" by auto
    then obtain y a where x: "x = y @ [a]" by (cases x rule: rev_cases) auto
    with that assms have "lower_cu a = last w" "97 \<le> last w \<and> last w \<le> 122"
      by (auto simp: last_map[symmetric] simp del: last_map)
    then have "is_word a" using lower_is_word by blast
    then show ?thesis unfolding x by (simp add: boundary_after_word)
  qed
  show ?thesis
  proof
    assume ?l
    then have m: "?n \<le> length v" "map lower_cu (take ?n v) = w"
      and b: "at_word_boundary (rev (take ?n v) @ pre) (drop ?n v)"
      by (auto simp: canon_True ci_eq[OF assms(2)] split: if_splits)
    from b bd[OF m(2)] have "drop ?n v = [] \<or> \<not> is_word (hd (drop ?n v))" by simp
    moreover have "v = take ?n v @ drop ?n v" by simp
    ultimately show ?r using m(2) unfolding ascii_lower_def by blast
  next
    assume ?r
    then obtain x v' where v: "v = x @ v'" and x: "map lower_cu x = w"
      and e: "v' = [] \<or> \<not> is_word (hd v')"
      unfolding ascii_lower_def by blast
    from x have len: "length x = ?n" by auto
    with v have tk: "take ?n v = x" "drop ?n v = v'" "?n \<le> length v" by auto
    from bd[OF x] e have "at_word_boundary (rev x @ pre) v'" by simp
    with tk x show ?l
      by (simp add: canon_True ci_eq[OF assms(2)])
  qed
qed

lemma plural_words_here:
  "rx_ends True rx_plural_words (pre, v, []) \<noteq> [] \<longleftrightarrow>
     (\<exists>x v'. v = x @ v' \<and> ascii_lower x \<in> {js ''holdings'', js ''group'', js ''partners''}
        \<and> (v' = [] \<or> \<not> is_word (hd v')))"
proof -
  have g: "rx_ends True rx_plural_words (pre, v, []) \<noteq> [] \<longleftrightarrow>
      (\<exists>s'\<in>set (rx_ends True (Lit (js ''holdings'')) (pre, v, [])). at_word_boundary (fst s') (fst (snd s')))
    \<or> (\<exists>s'\<in>set (rx_ends True (Lit (js ''group'')) (pre, v, [])). at_word_boundary (fst s') (fst (snd s')))
    \<or> (\<exists>s'\<in>set (rx_ends True (Lit (js ''partners'')) (pre, v, [])). at_word_boundary (fst s') (fst (snd s')))"
    unfolding rx_plural_words_def alts.simps
    by (subst rx_ends_Seq_nonempty, subst grp_boundary)
      (simp only: rx_ends.simps(4) set_append bex_Un)
  note L = lit_then_boundary[where pre = pre and v = v and caps = "[]"]
  have 1: "(\<exists>s'\<in>set (rx_ends True (Lit (js ''holdings'')) (pre, v, [])). at_word_boundary (fst s') (fst (snd s')))
      \<longleftrightarrow> (\<exists>x v'. v = x @ v' \<and> ascii_lower x = js ''holdings'' \<and> (v' = [] \<or> \<not> is_word (hd v')))"
    by (rule L) simp_all
  have 2: "(\<exists>s'\<in>set (rx_ends True (Lit (js ''group'')) (pre, v, [])). at_word_boundary (fst s') (fst (snd s')))
      \<longleftrightarrow> (\<exists>x v'. v = x @ v' \<and> ascii_lower x = js ''group'' \<and> (v' = [] \<or> \<not> is_word (hd v')))"
    by (rule L) simp_all
  have 3: "(\<exists>s'\<in>set (rx_ends True (Lit (js ''partners'')) (pre, v, [])). at_word_boundary (fst s') (fst (snd s')))
      \<longleftrightarrow> (\<exists>x v'. v = x @ v' \<and> ascii_lower x = js ''partners'' \<and> (v' = [] \<or> \<not> is_word (hd v')))"
    by (rule L) simp_all
  show ?thesis unfolding g 1 2 3 by blast
qed

lemma plural_words_iff:
  "rx_test True rx_plural_words nm \<longleftrightarrow>
     (\<exists>u x v. nm = u @ x @ v \<and> ascii_lower x \<in> {js ''holdings'', js ''group'', js ''partners''}
        \<and> (v = [] \<or> \<not> is_word (hd v)))"
  unfolding rx_test_iff plural_words_here by blast

lemma pronounsFor_S_Corp: "pronounsFor (js ''S Corp'') = [js ''it'', js ''its'', js ''itself'']"
  by (simp add: pronounsFor_def rx_plural_words_def rx_final_s_def rx_eval)

lemma isPossessive_makePossessive: "s \<noteq> [] \<Longrightarrow> isPossessive (makePossessive s)"
proof -
  assume "s \<noteq> []"
  then have "makePossessive s = s @ [APOS] @ [] \<or> makePossessive s = s @ [APOS] @ [] @ [115]"
    by (simp add: makePossessive_def)
  then show ?thesis unfolding isPossessive_iff by fastforce
qed

text \<open>
  C7, as the specification states it, fails on a name that starts with a one-letter word
  \<open>s\<close>: the names \<open>s\<close> and \<open>S Corp\<close> hold a word ending in \<open>s\<close> with no apostrophe before it,
  and \<open>pronounsFor\<close> returns the singular pronouns for both, since the pattern
  \<^verbatim>\<open>/[^']s\b/i\<close> asks for a character before the \<open>s\<close>.
\<close>

theorem pronounsFor_leading_s_counterexample:
  "pronounsFor (js ''s'') = [js ''it'', js ''its'', js ''itself'']
   \<and> js ''S Corp'' = js ''S'' @ js '' Corp'' \<and> \<not> is_word SPC
   \<and> pronounsFor (js ''S Corp'') = [js ''it'', js ''its'', js ''itself'']"
proof -
  have "pronounsFor (js ''s'') = [js ''it'', js ''its'', js ''itself'']"
    by (simp add: pronounsFor_def rx_plural_words_def rx_final_s_def rx_eval)
  moreover have "js ''S Corp'' = js ''S'' @ js '' Corp'' \<and> \<not> is_word SPC"
    by (simp add: is_word_def)
  ultimately show ?thesis using pronounsFor_S_Corp by blast
qed

text \<open>
  C7, amended. \<open>pronounsFor\<close> returns one of two fixed lists for every name: they, their,
  themselves when the name holds one of the words holdings, group, partners (in any
  letter case) followed by the end of the name or by a character that is not a word
  character, or holds a character other than an apostrophe followed by an \<open>s\<close> or \<open>S\<close> that
  ends a word in the same sense; and it, its, itself otherwise. An \<open>s\<close> at the very start
  of the name has no character before it and does not count. \<open>Acme Holdings\<close> gets the
  plural list and \<open>Acme Inc\<close> the singular one.
\<close>

theorem pronounsFor_spec:
  "pronounsFor nm =
     (if (\<exists>u x v. nm = u @ x @ v \<and> ascii_lower x \<in> {js ''holdings'', js ''group'', js ''partners''}
            \<and> (v = [] \<or> \<not> is_word (hd v)))
         \<or> (\<exists>u c d v. nm = u @ c # d # v \<and> c \<noteq> APOS \<and> (d = 115 \<or> d = 83)
            \<and> (v = [] \<or> \<not> is_word (hd v)))
      then [js ''they'', js ''their'', js ''themselves'']
      else [js ''it'', js ''its'', js ''itself''])
   \<and> (pronounsFor nm = [js ''they'', js ''their'', js ''themselves'']
        \<or> pronounsFor nm = [js ''it'', js ''its'', js ''itself''])
   \<and> pronounsFor (js ''Acme Holdings'') = [js ''they'', js ''their'', js ''themselves'']
   \<and> pronounsFor (js ''Acme Inc'') = [js ''it'', js ''its'', js ''itself'']"
proof -
  have 1: "pronounsFor nm =
     (if (\<exists>u x v. nm = u @ x @ v \<and> ascii_lower x \<in> {js ''holdings'', js ''group'', js ''partners''}
            \<and> (v = [] \<or> \<not> is_word (hd v)))
         \<or> (\<exists>u c d v. nm = u @ c # d # v \<and> c \<noteq> APOS \<and> (d = 115 \<or> d = 83)
            \<and> (v = [] \<or> \<not> is_word (hd v)))
      then [js ''they'', js ''their'', js ''themselves'']
      else [js ''it'', js ''its'', js ''itself''])"
    unfolding pronounsFor_def Let_def plural_words_iff final_s_iff by simp
  have 2: "pronounsFor nm = [js ''they'', js ''their'', js ''themselves'']
        \<or> pronounsFor nm = [js ''it'', js ''its'', js ''itself'']"
    by (simp add: pronounsFor_def Let_def)
  from 1 2 pronounsFor_Acme_Holdings pronounsFor_Acme_Inc show ?thesis by blast
qed

theorem pronounsFor_spec_witness:
  "js ''Acme Holdings'' = js ''Acme Holdin'' @ 103 # 115 # [] \<and> 103 \<noteq> APOS
   \<and> pronounsFor (js ''Acme Holdings'') = [js ''they'', js ''their'', js ''themselves'']"
proof -
  have d: "js ''Acme Holdings'' = js ''Acme Holdin'' @ 103 # 115 # [] \<and> (103::nat) \<noteq> APOS"
    by simp
  then have "\<exists>u c d v. js ''Acme Holdings'' = u @ c # d # v \<and> c \<noteq> APOS \<and> (d = 115 \<or> d = 83)
            \<and> (v = [] \<or> \<not> is_word (hd v))"
    by blast
  with pronounsFor_spec[of "js ''Acme Holdings''"]
  have "pronounsFor (js ''Acme Holdings'') = [js ''they'', js ''their'', js ''themselves'']"
    by presburger
  with d show ?thesis by blast
qed

subsection \<open>The searches issued\<close>

lemma per_item_host:
  "sync_inserts h = sync_inserts h' \<Longrightarrow> per_item h slice w applied = per_item h' slice w applied"
  by (induction slice arbitrary: w applied) simp_all

lemma mark_batch_host:
  assumes "sync_inserts h = sync_inserts h'"
  shows "mark_batch h = mark_batch h'"
proof (intro ext)
  fix st :: "('a, 'b) world \<times> nat" and slice
  obtain w applied where st: "st = (w, applied)" by (cases st)
  show "mark_batch h st slice = mark_batch h' st slice"
    unfolding st mark_batch_pair per_item_host[of h h', OF assms] assms ..
qed

lemma searchAndHighlight_host:
  assumes "body_search h (body w) (contentControls w) term (searchOptions term wholeWord)
         = body_search h' (body w) (contentControls w) term (searchOptions term wholeWord)"
    and "sync_inserts h = sync_inserts h'"
  shows "searchAndHighlight h term wholeWord w = searchAndHighlight h' term wholeWord w"
proof -
  let ?items = "body_search h (body w) (contentControls w) term (searchOptions term wholeWord)"
  have "batches_from h ?items (int (length ?items) - 1) w 0
      = batches_from h' ?items (int (length ?items) - 1) w 0"
    using batches_from_chunks[of "length ?items" ?items h w 0]
      batches_from_chunks[of "length ?items" ?items h' w 0]
    by (simp add: mark_batch_host[OF assms(2)])
  then show ?thesis
    unfolding searchAndHighlight_def assms(1)[symmetric] by (simp add: Let_def)
qed

lemma highlight_terms_host:
  assumes "\<And>b c t. body_search h b c t (searchOptions t (\<not> isPossessive t))
             = body_search h' b c t (searchOptions t (\<not> isPossessive t))"
    and "sync_inserts h = sync_inserts h'"
  shows "highlight_terms h terms w n0 = highlight_terms h' terms w n0"
proof (induction terms arbitrary: w n0)
  case Nil
  show ?case by simp
next
  case (Cons t terms)
  have "searchAndHighlight h t (\<not> isPossessive t) w = searchAndHighlight h' t (\<not> isPossessive t) w"
    by (rule searchAndHighlight_host[OF assms(1) assms(2)])
  then show ?case by (simp add: Cons split: prod.splits)
qed

lemma onNext_host:
  assumes "\<And>b c t. body_search h b c t (searchOptions t (\<not> isPossessive t))
             = body_search h' b c t (searchOptions t (\<not> isPossessive t))"
    and "sync_inserts h = sync_inserts h'" and "save_async h = save_async h'"
  shows "onNext ct h selected w = onNext ct h' selected w"
proof -
  have s: "saveSelected h = saveSelected h'"
    by (intro ext) (simp add: saveSelected_def assms(3))
  have t: "highlight_terms h = highlight_terms h'"
    by (intro ext) (rule highlight_terms_host[OF assms(1) assms(2)])
  show ?thesis unfolding onNext_def s t by (rule refl)
qed

lemma searchOptions_eq:
  "searchOptions term wholeWord =
     \<lparr>matchCase = False, matchWholeWord = wholeWord,
      ignorePunct = (if length term > 3 then Some True else None),
      ignoreSpace = (if length term > 3 then Some True else None)\<rparr>"
  by (simp add: searchOptions_def)

lemma isPossessive_Acme: "isPossessive (js ''Acme'' @ [APOS] @ js ''s'')"
  by (simp add: isPossessive_def rx_possessive_def rx_eval is_ws_def)
lemma isPossessive_Holdings: "isPossessive (js ''Holdings'' @ [APOS])"
  by (simp add: isPossessive_def rx_possessive_def rx_eval is_ws_def)
lemma not_isPossessive_Acme: "\<not> isPossessive (js ''Acme'')"
  by (simp add: isPossessive_def rx_possessive_def rx_eval is_ws_def)

text \<open>
  C6. The options of every search are: no case matching, whole-word matching as the
  caller asks, and the punctuation- and space-ignoring options set exactly when the term
  has more than 3 characters (otherwise they are not set). \<open>onNext\<close> asks for whole words
  on every term but the possessive ones: its result depends on the host's search only
  through searches with these options, so two hosts that agree on them (and on commits
  and saves) give the same result. A term is possessive when it ends in an apostrophe,
  optional white space and an optional \<open>s\<close>; every possessive that \<open>makePossessive\<close> builds,
  \<open>Acme's\<close> for one, is of that form, and \<open>Acme\<close> is not.
\<close>

theorem search_options_spec:
  "searchOptions term wholeWord =
     \<lparr>matchCase = False, matchWholeWord = wholeWord,
      ignorePunct = (if length term > 3 then Some True else None),
      ignoreSpace = (if length term > 3 then Some True else None)\<rparr>
   \<and> ((\<forall>b c t. body_search h b c t
                  \<lparr>matchCase = False, matchWholeWord = (\<not> isPossessive t),
                   ignorePunct = (if length t > 3 then Some True else None),
                   ignoreSpace = (if length t > 3 then Some True else None)\<rparr>
                = body_search h' b c t
                  \<lparr>matchCase = False, matchWholeWord = (\<not> isPossessive t),
                   ignorePunct = (if length t > 3 then Some True else None),
                   ignoreSpace = (if length t > 3 then Some True else None)\<rparr>)
        \<and> sync_inserts h = sync_inserts h' \<and> save_async h = save_async h'
       \<longrightarrow> onNext ct h selected w = onNext ct h' selected w)
   \<and> (isPossessive term \<longleftrightarrow>
         (\<exists>p ws. term = p @ [APOS] @ ws \<and> (\<forall>c\<in>set ws. is_ws c))
         \<or> (\<exists>p ws. term = p @ [APOS] @ ws @ js ''s'' \<and> (\<forall>c\<in>set ws. is_ws c)))
   \<and> (s \<noteq> [] \<longrightarrow> isPossessive (makePossessive s))
   \<and> isPossessive (js ''Acme'' @ [APOS] @ js ''s'') \<and> \<not> isPossessive (js ''Acme'')"
proof -
  have ext: "onNext ct h selected w = onNext ct h' selected w"
    if a: "\<forall>b c t. body_search h b c t
                  \<lparr>matchCase = False, matchWholeWord = (\<not> isPossessive t),
                   ignorePunct = (if length t > 3 then Some True else None),
                   ignoreSpace = (if length t > 3 then Some True else None)\<rparr>
                = body_search h' b c t
                  \<lparr>matchCase = False, matchWholeWord = (\<not> isPossessive t),
                   ignorePunct = (if length t > 3 then Some True else None),
                   ignoreSpace = (if length t > 3 then Some True else None)\<rparr>"
      and b: "sync_inserts h = sync_inserts h'" and c: "save_async h = save_async h'"
  proof (rule onNext_host[OF _ b c])
    fix b c t
    show "body_search h b c t (searchOptions t (\<not> isPossessive t))
        = body_search h' b c t (searchOptions t (\<not> isPossessive t))"
      unfolding searchOptions_eq using a by blast
  qed
  have p: "isPossessive term \<longleftrightarrow>
         (\<exists>p ws. term = p @ [APOS] @ ws \<and> (\<forall>c\<in>set ws. is_ws c))
         \<or> (\<exists>p ws. term = p @ [APOS] @ ws @ js ''s'' \<and> (\<forall>c\<in>set ws. is_ws c))"
    using isPossessive_iff[of "term"] by simp
  from ext p searchOptions_eq[of "term" wholeWord] isPossessive_makePossessive[of s]
    isPossessive_Acme not_isPossessive_Acme
  show ?thesis by blast
qed

theorem search_options_spec_witness:
  "body_search \<lparr>body_search = (\<lambda>b c t opts. [0 :: nat]), sync_inserts = (\<lambda>b c rs. True),
                 save_async = (\<lambda>ps sel. True)\<rparr> () [] (js ''it'')
      \<lparr>matchCase = True, matchWholeWord = True, ignorePunct = None, ignoreSpace = None\<rparr>
   \<noteq> body_search \<lparr>body_search = (\<lambda>b c t opts. if matchCase opts then [] else [0 :: nat]),
                 sync_inserts = (\<lambda>b c rs. True), save_async = (\<lambda>ps sel. True)\<rparr> () [] (js ''it'')
      \<lparr>matchCase = True, matchWholeWord = True, ignorePunct = None, ignoreSpace = None\<rparr>
   \<and> onNext ascii_tables \<lparr>body_search = (\<lambda>b c t opts. [0 :: nat]), sync_inserts = (\<lambda>b c rs. True),
              save_async = (\<lambda>ps sel. True)\<rparr> (Some (js ''Acme''))
        \<lparr>body = (), contentControls = [], stored_parties = None, stored_selected = None\<rparr>
     = onNext ascii_tables \<lparr>body_search = (\<lambda>b c t opts. if matchCase opts then [] else [0 :: nat]),
              sync_inserts = (\<lambda>b c rs. True), save_async = (\<lambda>ps sel. True)\<rparr> (Some (js ''Acme''))
        \<lparr>body = (), contentControls = [], stored_parties = None, stored_selected = None\<rparr>"
proof -
  let ?h = "\<lparr>body_search = (\<lambda>b c t opts. [0 :: nat]), sync_inserts = (\<lambda>b c rs. True),
             save_async = (\<lambda>ps sel. True)\<rparr> :: (unit, nat) host"
  let ?h' = "\<lparr>body_search = (\<lambda>b c t opts. if matchCase opts then [] else [0 :: nat]),
              sync_inserts = (\<lambda>b c rs. True), save_async = (\<lambda>ps sel. True)\<rparr> :: (unit, nat) host"
  let ?w = "\<lparr>body = (), contentControls = [], stored_parties = None, stored_selected = None\<rparr>
             :: (unit, nat) world"
  have a: "\<forall>b c t. body_search ?h b c t
                  \<lparr>matchCase = False, matchWholeWord = (\<not> isPossessive t),
                   ignorePunct = (if length t > 3 then Some True else None),
                   ignoreSpace = (if length t > 3 then Some True else None)\<rparr>
                = body_search ?h' b c t
                  \<lparr>matchCase = False, matchWholeWord = (\<not> isPossessive t),
                   ignorePunct = (if length t > 3 then Some True else None),
                   ignoreSpace = (if length t > 3 then Some True else None)\<rparr>"
    by simp
  have b: "sync_inserts ?h = sync_inserts ?h'" "save_async ?h = save_async ?h'" by simp_all
  have d: "body_search ?h () [] (js ''it'')
      \<lparr>matchCase = True, matchWholeWord = True, ignorePunct = None, ignoreSpace = None\<rparr>
   \<noteq> body_search ?h' () [] (js ''it'')
      \<lparr>matchCase = True, matchWholeWord = True, ignorePunct = None, ignoreSpace = None\<rparr>"
    by simp
  from a b search_options_spec[where h = ?h and h' = ?h' and selected = "Some (js ''Acme'')"
      and w = ?w and ct = ascii_tables]
  have "onNext ascii_tables ?h (Some (js ''Acme'')) ?w = onNext ascii_tables ?h' (Some (js ''Acme'')) ?w"
    by blast
  with d show ?thesis by blast
qed

end
